theory Spec2Isabelle
  imports Main
begin

section \<open>Values, the request state and its snapshots\<close>

text \<open>
  The engine of \<^verbatim>\<open>src/lib/apicase.js\<close> never looks inside payloads, results or
  thrown values: they are opaque JavaScript values.
\<close>

datatype jsval = Undefined | Null | Str string | Num int | Obj "(string \<times> jsval) list"

text \<open>
  The six fields that \<^verbatim>\<open>pickState\<close> picks. The handle \<^verbatim>\<open>res\<close> carries the same
  six fields (its other properties are methods), so one record type serves for the
  mutable fields of the handle and for a snapshot of them.
\<close>

record state =
  success :: bool
  pending :: bool
  cancelled :: bool
  payload :: jsval
  result :: jsval
  meta :: jsval

definition pickState :: "state \<Rightarrow> state" where
  "pickState r =
     \<lparr>success = success r, pending = pending r, cancelled = cancelled r,
      payload = payload r, result = result r, meta = meta r\<rparr>"

text \<open>One own property of a source object of \<^verbatim>\<open>Object.assign\<close>.\<close>

datatype assignment = Success bool | Pending bool | Cancelled bool
  | Payload jsval | Result jsval | Meta jsval

fun assign_prop :: "state \<Rightarrow> assignment \<Rightarrow> state" where
  "assign_prop r (Success b) = r\<lparr>success := b\<rparr>"
| "assign_prop r (Pending b) = r\<lparr>pending := b\<rparr>"
| "assign_prop r (Cancelled b) = r\<lparr>cancelled := b\<rparr>"
| "assign_prop r (Payload v) = r\<lparr>payload := v\<rparr>"
| "assign_prop r (Result v) = r\<lparr>result := v\<rparr>"
| "assign_prop r (Meta v) = r\<lparr>meta := v\<rparr>"

text \<open>
  \<^verbatim>\<open>Object.assign(target, source)\<close> writes the source's properties into the object
  \<^emph>\<open>at\<close> the target reference and returns that same reference. Snapshot objects live
  in a store (a list, addressed by position) so that the sharing is visible.
\<close>

type_synonym store = "state list"

definition new_object :: "state \<Rightarrow> store \<Rightarrow> nat \<times> store" where
  "new_object r h = (length h, h @ [r])"

definition Object_assign :: "nat \<Rightarrow> assignment list \<Rightarrow> store \<Rightarrow> nat \<times> store" where
  "Object_assign target source h = (target, h[target := foldl assign_prop (h ! target) source])"

section \<open>Events, promises and the callbacks of the caller\<close>

datatype chain = Before | Done | Fail

text \<open>What the bus emits, with the arguments as a subscriber reads them at emission.\<close>

datatype event =
    ChangeState state state "assignment list"
  | ChangePayload jsval jsval
  | ChangeResult jsval jsval
  | DoneEv jsval state
  | FailEv jsval state
  | FinishEv jsval state
  | CancelEv state
  | ErrorEv jsval
  | Custom string jsval

text \<open>
  Promises of the platform. A promise fulfils with \<^verbatim>\<open>undefined\<close> or with a snapshot
  (nothing else is ever passed on by this file), or rejects with a thrown value.
  \<open>alreadyResolved\<close> is the flag of the promise's resolving functions: once
  \<^verbatim>\<open>resolve\<close> or \<^verbatim>\<open>reject\<close> has been called, later calls do nothing.
\<close>

datatype pvalue = Unit | Snapshot state

datatype settlement = Fulfilled pvalue | Rejected jsval

datatype resolution = Value pvalue | Thenable nat

datatype reaction =
    ThenFinal chain jsval nat
  | CatchThrowError nat
  | ThenCancel nat
  | Adopt nat

text \<open>Which expression of the source made a promise (an annotation; nothing reads it).\<close>

datatype origin = InWithPayload | InPromiseResolve | InDoRequest | InCatch | InCancel

record promise =
  settled :: "settlement option"
  alreadyResolved :: bool
  reactions :: "reaction list"
  origin :: origin

datatype job =
    ReactionJob reaction settlement
  | ResolveThenableJob nat nat
  | ExternalThenable nat settlement

text \<open>
  A hook is a function of its context. What it does with the context is the list of
  calls it makes before it returns; a hook may also throw. Calls it makes later (from a
  timer, say) are inputs of the environment, below.
\<close>

datatype capability = CNext | CDone | CFail | CRetry

datatype action = Call capability jsval | Throw jsval

record hook_ctx =
  ctx_meta :: jsval
  ctx_payload :: jsval
  ctx_result :: "jsval option"
  ctx_caps :: "capability list"

type_synonym hook = "hook_ctx \<Rightarrow> action list"

text \<open>
  The cancellation callback an adapter registers; the number is a label. \<open>Returns\<close>: it
  returns something that is not a thenable, or a promise of the platform that is already
  fulfilled (\<^verbatim>\<open>Promise.resolve\<close> gives that promise back), so that the handler of \<^verbatim>\<open>.then\<close>
  is queued at once. \<open>Throws\<close>: it throws. \<open>ReturnsRejecting\<close>, \<open>ReturnsFulfilling\<close>: it
  returns a thenable that settles when the job queued by \<^verbatim>\<open>Promise.resolve\<close> calls its
  \<^verbatim>\<open>then\<close>; a thenable that settles later postpones the same job.
\<close>

datatype cb_behaviour = Returns | Throws jsval | ReturnsRejecting jsval | ReturnsFulfilling

datatype cancel_cb = Noop | Registered nat cb_behaviour

datatype adapter_action =
    Resolve jsval
  | Reject jsval
  | SetCancelCallback cancel_cb
  | Emit string jsval
  | AdapterThrow jsval

record adapter_ctx =
  a_payload :: jsval
  a_result :: jsval

text \<open>
  What the adapter's callback returns, as lines 180-181 see it: something without a
  \<^verbatim>\<open>then\<close> property (or nothing); a thenable whose \<^verbatim>\<open>catch\<close> takes \<^verbatim>\<open>reject\<close>; or a thenable
  for which \<^verbatim>\<open>cb.catch(reject)\<close> throws inside the \<^verbatim>\<open>try\<close> (a \<^verbatim>\<open>TypeError\<close> when it has no
  such method).
\<close>

datatype returned = Plain | Catchable | CatchThrows jsval

text \<open>
  \<open>callback\<close> gives the calls the adapter makes on its capability object before it
  returns, and what it returns. \<open>convert\<close> is \<open>None\<close> when the adapter has no such
  property; otherwise the function returns a value (\<open>Inr\<close>) or throws (\<open>Inl\<close>).
  \<open>createState\<close> is \<open>None\<close> when the adapter has no such property, otherwise the value
  the function returns.
\<close>

record adapter =
  callback :: "adapter_ctx \<Rightarrow> adapter_action list \<times> returned"
  convert :: "(jsval \<Rightarrow> jsval + jsval) option"
  createState :: "jsval option"

text \<open>
  The request after \<^verbatim>\<open>normalizeOptions\<close> (which is not part of this file), and the
  build mode (\<^verbatim>\<open>process.env.NODE_ENV === 'production'\<close>).
\<close>

record request =
  req_meta :: jsval
  req_payload :: jsval
  hooks_before :: "hook list"
  hooks_done :: "hook list"
  hooks_fail :: "hook list"
  req_adapter :: adapter
  production :: bool

section \<open>The state of one request\<close>

text \<open>
  One invocation of a hook creates the closure of \<^verbatim>\<open>isResolved\<close>, \<^verbatim>\<open>resolve\<close> and the
  context: a \<open>step\<close>. One invocation of \<^verbatim>\<open>doRequest\<close> creates the capability object of
  the adapter: a \<open>call\<close>.
\<close>

record hook_step =
  s_chain :: chain
  s_promise :: nat
  isResolved :: bool

record call =
  c_promise :: nat
  c_thenable :: bool

text \<open>
  Synchronous work still to do, innermost first: the rest of a hook's body, the
  \<^verbatim>\<open>tryResolve\<close> that follows once \<^verbatim>\<open>withPayload\<close> or the new flow has returned its
  promise, the rest of the adapter's callback, and so on.
\<close>

datatype cmd =
    HookBody nat "action list"
  | TryResolve nat nat
  | AdapterBody nat "adapter_action list" returned
  | ResolveWith nat nat
  | DoRequestTail nat nat

record config =
  res :: state
  idx_before :: nat
  idx_done :: nat
  idx_fail :: nat
  cancelCallback :: cancel_cb
  bus :: "event list"
  console :: "(chain \<times> nat) list"
  invoked :: "cancel_cb list"
  faults :: "jsval list"
  promises :: "promise list"
  steps :: "hook_step list"
  calls :: "call list"
  microtasks :: "job list"

text \<open>The machine: the synchronous work in progress, and the state.\<close>

type_synonym machine = "cmd list \<times> config"

section \<open>The platform: the bus, promises and the microtask queue\<close>

definition emit :: "event \<Rightarrow> config \<Rightarrow> config" where
  "emit e cfg = cfg\<lparr>bus := bus cfg @ [e]\<rparr>"

definition enqueue :: "job \<Rightarrow> config \<Rightarrow> config" where
  "enqueue j cfg = cfg\<lparr>microtasks := microtasks cfg @ [j]\<rparr>"

definition new_promise :: "promise \<Rightarrow> config \<Rightarrow> nat \<times> config" where
  "new_promise p cfg = (length (promises cfg), cfg\<lparr>promises := promises cfg @ [p]\<rparr>)"

definition pending_promise :: "origin \<Rightarrow> promise" where
  "pending_promise k = \<lparr>settled = None, alreadyResolved = False, reactions = [], origin = k\<rparr>"

definition fulfilled_promise :: "origin \<Rightarrow> promise" where
  "fulfilled_promise k =
     \<lparr>settled = Some (Fulfilled Unit), alreadyResolved = True, reactions = [], origin = k\<rparr>"

text \<open>
  The promise behind a reference. Every reference the engine holds was returned by
  \<open>new_promise\<close>, so it is below the length of the list; the other branch only makes the
  lookup total.
\<close>

definition promise_at :: "config \<Rightarrow> nat \<Rightarrow> promise" where
  "promise_at cfg p =
     (if p < length (promises cfg) then promises cfg ! p else pending_promise InWithPayload)"

text \<open>Settling a promise queues one job for each reaction registered on it.\<close>

definition settle :: "nat \<Rightarrow> settlement \<Rightarrow> config \<Rightarrow> config" where
  "settle p st cfg =
     (let pr = promise_at cfg p in
      cfg\<lparr>promises := (promises cfg)[p := pr\<lparr>settled := Some st, reactions := []\<rparr>],
          microtasks := microtasks cfg @ map (\<lambda>r. ReactionJob r st) (reactions pr)\<rparr>)"

definition lock :: "nat \<Rightarrow> config \<Rightarrow> config" where
  "lock p cfg = cfg\<lparr>promises := (promises cfg)[p := (promise_at cfg p)\<lparr>alreadyResolved := True\<rparr>]\<rparr>"

text \<open>
  The resolving functions of promise \<open>p\<close>. Resolving with a promise defers to a job
  that calls its \<^verbatim>\<open>then\<close>; resolving with a plain value fulfils at once.
\<close>

definition resolvePromise :: "nat \<Rightarrow> resolution \<Rightarrow> config \<Rightarrow> config" where
  "resolvePromise p x cfg =
     (if alreadyResolved (promise_at cfg p) then cfg
      else case x of
          Value v \<Rightarrow> settle p (Fulfilled v) (lock p cfg)
        | Thenable q \<Rightarrow> enqueue (ResolveThenableJob p q) (lock p cfg))"

definition rejectPromise :: "nat \<Rightarrow> jsval \<Rightarrow> config \<Rightarrow> config" where
  "rejectPromise p e cfg =
     (if alreadyResolved (promise_at cfg p) then cfg
      else settle p (Rejected e) (lock p cfg))"

text \<open>
  \<^verbatim>\<open>q.then(...)\<close> with the handlers of reaction \<open>r\<close> (which names the derived promise,
  made by the caller).
\<close>

definition promise_then :: "nat \<Rightarrow> reaction \<Rightarrow> config \<Rightarrow> config" where
  "promise_then q r cfg =
     (case settled (promise_at cfg q) of
        None \<Rightarrow>
          cfg\<lparr>promises :=
            (promises cfg)[q := (promise_at cfg q)\<lparr>reactions := reactions (promise_at cfg q) @ [r]\<rparr>]\<rparr>
      | Some st \<Rightarrow> enqueue (ReactionJob r st) cfg)"

section \<open>The options of the three chains\<close>

definition hooks :: "request \<Rightarrow> chain \<Rightarrow> hook list" where
  "hooks req c = (case c of Before \<Rightarrow> hooks_before req | Done \<Rightarrow> hooks_done req | Fail \<Rightarrow> hooks_fail req)"

text \<open>\<^verbatim>\<open>let idx = 0\<close>: one cursor for each call of \<^verbatim>\<open>composeHooks\<close>, so one for each chain.\<close>

definition idx :: "chain \<Rightarrow> config \<Rightarrow> nat" where
  "idx c cfg = (case c of Before \<Rightarrow> idx_before cfg | Done \<Rightarrow> idx_done cfg | Fail \<Rightarrow> idx_fail cfg)"

definition incr_idx :: "chain \<Rightarrow> config \<Rightarrow> config" where
  "incr_idx c cfg =
     (case c of
        Before \<Rightarrow> cfg\<lparr>idx_before := idx_before cfg + 1\<rparr>
      | Done \<Rightarrow> cfg\<lparr>idx_done := idx_done cfg + 1\<rparr>
      | Fail \<Rightarrow> cfg\<lparr>idx_fail := idx_fail cfg + 1\<rparr>)"

text \<open>The three \<^verbatim>\<open>update\<close> functions (lines 202-210, 222-232, 248-258).\<close>

definition update :: "chain \<Rightarrow> jsval \<Rightarrow> config \<Rightarrow> config" where
  "update c nxt cfg =
     (case c of
        Before \<Rightarrow>
          (let prev = payload (res cfg);
               cfg1 = emit (ChangePayload prev nxt) cfg
           in cfg1\<lparr>res := (res cfg1)\<lparr>payload := nxt\<rparr>\<rparr>)
      | Done \<Rightarrow>
          (let prev = result (res cfg);
               cfg1 = emit (ChangeResult prev nxt) cfg
           in cfg1\<lparr>res := (res cfg1)\<lparr>result := nxt, pending := False, success := True\<rparr>\<rparr>)
      | Fail \<Rightarrow>
          (let prev = result (res cfg);
               cfg1 = emit (ChangeResult prev nxt) cfg
           in cfg1\<lparr>res := (res cfg1)\<lparr>result := nxt, pending := False, success := False\<rparr>\<rparr>))"

text \<open>
  \<^verbatim>\<open>setState\<close> (lines 189-198). \<^verbatim>\<open>prev\<close> is a fresh object; \<^verbatim>\<open>Object.assign(prev, diff)\<close>
  writes into it and returns it, so \<^verbatim>\<open>next\<close> is the same reference. The event carries
  both references; a subscriber reads them when the event is emitted. The last line,
  \<^verbatim>\<open>Object.assign(res, next)\<close>, copies all six fields of \<^verbatim>\<open>next\<close> into the handle.
\<close>

definition setState :: "assignment list \<Rightarrow> config \<Rightarrow> config" where
  "setState diff cfg =
     (let (prev, h1) = new_object (pickState (res cfg)) [];
          (nxt, h2) = Object_assign prev diff h1;
          cfg1 = emit (ChangeState (h2 ! prev) (h2 ! nxt) diff) cfg
      in cfg1\<lparr>res := h2 ! nxt\<rparr>)"

text \<open>
  The three \<^verbatim>\<open>createContext\<close> functions, with the redirects each offers;
  \<^verbatim>\<open>withPayload\<close> adds \<^verbatim>\<open>next\<close>.
\<close>

definition createContext :: "request \<Rightarrow> chain \<Rightarrow> jsval \<Rightarrow> config \<Rightarrow> hook_ctx" where
  "createContext req c v cfg =
     (case c of
        Before \<Rightarrow>
          \<lparr>ctx_meta = req_meta req, ctx_payload = v, ctx_result = None, ctx_caps = [CDone, CFail]\<rparr>
      | Done \<Rightarrow>
          \<lparr>ctx_meta = req_meta req, ctx_payload = payload (res cfg), ctx_result = Some v,
           ctx_caps = [CFail]\<rparr>
      | Fail \<Rightarrow>
          \<lparr>ctx_meta = req_meta req, ctx_payload = payload (res cfg), ctx_result = Some v,
           ctx_caps = [CDone, CRetry]\<rparr>)"

definition has_cap :: "chain \<Rightarrow> capability \<Rightarrow> bool" where
  "has_cap c cap =
     (case c of
        Before \<Rightarrow> cap \<in> set [CDone, CFail, CNext]
      | Done \<Rightarrow> cap \<in> set [CFail, CNext]
      | Fail \<Rightarrow> cap \<in> set [CDone, CRetry, CNext])"

section \<open>\<^verbatim>\<open>composeHooks\<close>\<close>

text \<open>
  \<^verbatim>\<open>withPayload\<close> (lines 8-47) returns its promise, and the invocation of the hook
  (line 45) as work that runs before the caller goes on. With no hook at the cursor it
  updates and defers \<^verbatim>\<open>final\<close> by \<^verbatim>\<open>Promise.resolve().then(...)\<close>.
\<close>

definition withPayload :: "request \<Rightarrow> chain \<Rightarrow> jsval \<Rightarrow> config \<Rightarrow> nat \<times> cmd list \<times> config" where
  "withPayload req c v cfg =
     (if length (hooks req c) \<le> idx c cfg then
        (let cfg1 = update c v cfg;
             (p0, cfg2) = new_promise (fulfilled_promise InPromiseResolve) cfg1;
             (d, cfg3) = new_promise (pending_promise InWithPayload) cfg2
         in (d, [], promise_then p0 (ThenFinal c v d) cfg3))
      else
        (let (p, cfg1) = new_promise (pending_promise InWithPayload) cfg;
             s = length (steps cfg1);
             cfg2 = cfg1\<lparr>steps := steps cfg1 @ [\<lparr>s_chain = c, s_promise = p, isResolved = False\<rparr>]\<rparr>;
             ctx0 = createContext req c v cfg2;
             ctx = ctx0\<lparr>ctx_caps := ctx_caps ctx0 @ [CNext]\<rparr>
         in (p, [HookBody s ((hooks req c ! idx c cfg) ctx)], cfg2)))"

text \<open>\<^verbatim>\<open>tryResolve\<close> (lines 17-30), called with the promise its argument evaluated to.\<close>

definition tryResolve :: "request \<Rightarrow> nat \<Rightarrow> nat \<Rightarrow> config \<Rightarrow> config" where
  "tryResolve req s p cfg =
     (let st = steps cfg ! s in
      if \<not> production req \<and> isResolved st then
        cfg\<lparr>console := console cfg @ [(s_chain st, idx (s_chain st) cfg)]\<rparr>
      else
        resolvePromise (s_promise st) (Thenable p)
          (cfg\<lparr>steps := (steps cfg)[s := st\<lparr>isResolved := True\<rparr>]\<rparr>))"

text \<open>
  \<^verbatim>\<open>changeFlow\<close> (line 32) and \<^verbatim>\<open>next\<close> (lines 37-41), for the step \<open>s\<close> whose context
  they belong to. Both evaluate the argument of \<^verbatim>\<open>tryResolve\<close> first: the new flow, or
  \<^verbatim>\<open>withPayload\<close> after the cursor has moved and \<^verbatim>\<open>update\<close> has run.
\<close>

definition changeFlow :: "request \<Rightarrow> chain \<Rightarrow> nat \<Rightarrow> jsval \<Rightarrow> config \<Rightarrow> cmd list \<times> config" where
  "changeFlow req newFlow s v cfg =
     (let (p, cmds, cfg1) = withPayload req newFlow v cfg
      in (cmds @ [TryResolve s p], cfg1))"

definition ctx_next :: "request \<Rightarrow> nat \<Rightarrow> jsval \<Rightarrow> config \<Rightarrow> cmd list \<times> config" where
  "ctx_next req s v cfg =
     (let c = s_chain (steps cfg ! s);
          cfg1 = incr_idx c cfg;
          cfg2 = update c v cfg1;
          (p, cmds, cfg3) = withPayload req c v cfg2
      in (cmds @ [TryResolve s p], cfg3))"

definition invoke :: "request \<Rightarrow> nat \<Rightarrow> capability \<Rightarrow> jsval \<Rightarrow> config \<Rightarrow> cmd list \<times> config" where
  "invoke req s cap v cfg =
     (case cap of
        CNext \<Rightarrow> ctx_next req s v cfg
      | CDone \<Rightarrow> changeFlow req Done s v cfg
      | CFail \<Rightarrow> changeFlow req Fail s v cfg
      | CRetry \<Rightarrow> changeFlow req Before s v cfg)"

section \<open>\<^verbatim>\<open>apicase\<close>: the adapter call, the terminal steps and cancellation\<close>

definition resolveAdapter :: "request \<Rightarrow> nat \<Rightarrow> jsval \<Rightarrow> config \<Rightarrow> cmd list \<times> config" where
  "resolveAdapter req cid v cfg =
     (let (p, cmds, cfg1) = withPayload req Done v cfg
      in (cmds @ [ResolveWith (c_promise (calls cfg ! cid)) p], cfg1))"

definition rejectAdapter :: "request \<Rightarrow> nat \<Rightarrow> jsval \<Rightarrow> config \<Rightarrow> cmd list \<times> config" where
  "rejectAdapter req cid v cfg =
     (let (p, cmds, cfg1) = withPayload req Fail v cfg
      in (cmds @ [ResolveWith (c_promise (calls cfg ! cid)) p], cfg1))"

definition setCancelCallback :: "cancel_cb \<Rightarrow> config \<Rightarrow> config" where
  "setCancelCallback cb cfg = cfg\<lparr>cancelCallback := cb\<rparr>"

text \<open>
  \<^verbatim>\<open>req.adapter.convert ? req.adapter.convert(payload) : payload\<close> (line 167).
\<close>

definition converted :: "request \<Rightarrow> jsval \<Rightarrow> jsval + jsval" where
  "converted req v = (case convert (req_adapter req) of Some f \<Rightarrow> f v | None \<Rightarrow> Inr v)"

text \<open>
  \<^verbatim>\<open>doRequest\<close> (lines 163-187), called by the handler whose derived promise is \<open>d\<close>.
  The body of the adapter's callback runs first (or, if \<^verbatim>\<open>convert\<close> throws, nothing but
  that throw, inside the same \<^verbatim>\<open>try\<close>); then \<open>doRequest_tail\<close>: \<^verbatim>\<open>.catch(throwError)\<close> on the
  new promise, whose result \<^verbatim>\<open>doRequest\<close> returns.
\<close>

definition doRequest :: "request \<Rightarrow> jsval \<Rightarrow> nat \<Rightarrow> config \<Rightarrow> cmd list \<times> config" where
  "doRequest req v d cfg =
     (let (p1, cfg1) = new_promise (pending_promise InDoRequest) cfg;
          cid = length (calls cfg1);
          cfg2 = cfg1\<lparr>calls := calls cfg1 @ [\<lparr>c_promise = p1, c_thenable = False\<rparr>]\<rparr>
      in case converted req v of
           Inl e \<Rightarrow> ([AdapterBody cid [AdapterThrow e] Plain, DoRequestTail cid d], cfg2)
         | Inr w \<Rightarrow>
             (let (acts, ret) =
                    callback (req_adapter req) \<lparr>a_payload = w, a_result = result (res cfg2)\<rparr>
              in ([AdapterBody cid acts ret, DoRequestTail cid d], cfg2)))"

definition doRequest_tail :: "nat \<Rightarrow> nat \<Rightarrow> config \<Rightarrow> config" where
  "doRequest_tail cid d cfg =
     (let p1 = c_promise (calls cfg ! cid);
          (p2, cfg1) = new_promise (pending_promise InCatch) cfg;
          cfg2 = promise_then p1 (CatchThrowError p2) cfg1
      in resolvePromise d (Thenable p2) cfg2)"

text \<open>
  \<^verbatim>\<open>throwError\<close> (lines 133-136) as the rejection handler of \<^verbatim>\<open>.catch\<close>: the throw
  rejects the derived promise \<open>d\<close>.
\<close>

definition throwError :: "jsval \<Rightarrow> nat \<Rightarrow> config \<Rightarrow> config" where
  "throwError e d cfg = rejectPromise d e (emit (ErrorEv e) cfg)"

text \<open>
  The three \<^verbatim>\<open>final\<close> functions, run by the handler of line 12; their return value
  resolves the derived promise \<open>d\<close>.
\<close>

definition final :: "request \<Rightarrow> chain \<Rightarrow> jsval \<Rightarrow> nat \<Rightarrow> config \<Rightarrow> cmd list \<times> config" where
  "final req c v d cfg =
     (case c of
        Before \<Rightarrow> doRequest req v d cfg
      | Done \<Rightarrow>
          (let cfg1 = emit (DoneEv v (pickState (res cfg))) cfg;
               cfg2 = emit (FinishEv v (pickState (res cfg1))) cfg1
           in ([], resolvePromise d (Value (Snapshot (pickState (res cfg2)))) cfg2))
      | Fail \<Rightarrow>
          (let cfg1 = emit (FailEv v (pickState (res cfg))) cfg;
               cfg2 = emit (FinishEv v (pickState (res cfg1))) cfg1
           in ([], resolvePromise d (Value (Snapshot (pickState (res cfg2)))) cfg2)))"

text \<open>
  \<^verbatim>\<open>res.cancel\<close> (lines 153-158). The callback is called first. If it throws, the call
  of \<^verbatim>\<open>cancel\<close> throws and nothing else happens. Otherwise \<^verbatim>\<open>Promise.resolve\<close> wraps
  what it returned, and the handler of \<^verbatim>\<open>.then\<close> (\<open>cancel_handler\<close>) runs once that
  promise fulfils.
\<close>

definition behaviour :: "cancel_cb \<Rightarrow> cb_behaviour" where
  "behaviour cb = (case cb of Noop \<Rightarrow> Returns | Registered _ b \<Rightarrow> b)"

definition locked_promise :: "origin \<Rightarrow> promise" where
  "locked_promise k = \<lparr>settled = None, alreadyResolved = True, reactions = [], origin = k\<rparr>"

definition cancel :: "config \<Rightarrow> config" where
  "cancel cfg =
     (let cb = cancelCallback cfg;
          cfg0 = cfg\<lparr>invoked := invoked cfg @ [cb]\<rparr>
      in case behaviour cb of
           Throws e \<Rightarrow> cfg0
         | Returns \<Rightarrow>
             (let (p, cfg1) = new_promise (fulfilled_promise InCancel) cfg0;
                  (d, cfg2) = new_promise (pending_promise InCancel) cfg1
              in promise_then p (ThenCancel d) cfg2)
         | ReturnsRejecting e \<Rightarrow>
             (let (p, cfg1) = new_promise (locked_promise InCancel) cfg0;
                  cfg2 = enqueue (ExternalThenable p (Rejected e)) cfg1;
                  (d, cfg3) = new_promise (pending_promise InCancel) cfg2
              in promise_then p (ThenCancel d) cfg3)
         | ReturnsFulfilling \<Rightarrow>
             (let (p, cfg1) = new_promise (locked_promise InCancel) cfg0;
                  cfg2 = enqueue (ExternalThenable p (Fulfilled Unit)) cfg1;
                  (d, cfg3) = new_promise (pending_promise InCancel) cfg2
              in promise_then p (ThenCancel d) cfg3))"

definition cancel_handler :: "nat \<Rightarrow> config \<Rightarrow> config" where
  "cancel_handler d cfg =
     (let cfg1 = setState [Success False, Pending False, Cancelled True] cfg;
          cfg2 = emit (CancelEv (pickState (res cfg1))) cfg1
      in resolvePromise d (Value Unit) cfg2)"

section \<open>Running jobs and synchronous work\<close>

fun react :: "request \<Rightarrow> reaction \<Rightarrow> settlement \<Rightarrow> config \<Rightarrow> cmd list \<times> config" where
  "react req (ThenFinal c v d) (Fulfilled x) cfg = final req c v d cfg"
| "react req (ThenFinal c v d) (Rejected e) cfg = ([], rejectPromise d e cfg)"
| "react req (CatchThrowError d) (Fulfilled x) cfg = ([], resolvePromise d (Value x) cfg)"
| "react req (CatchThrowError d) (Rejected e) cfg = ([], throwError e d cfg)"
| "react req (ThenCancel d) (Fulfilled x) cfg = ([], cancel_handler d cfg)"
| "react req (ThenCancel d) (Rejected e) cfg = ([], rejectPromise d e cfg)"
| "react req (Adopt p) st cfg = ([], settle p st cfg)"

fun run_job :: "request \<Rightarrow> job \<Rightarrow> config \<Rightarrow> cmd list \<times> config" where
  "run_job req (ReactionJob r st) cfg = react req r st cfg"
| "run_job req (ResolveThenableJob p q) cfg = ([], promise_then q (Adopt p) cfg)"
| "run_job req (ExternalThenable p st) cfg = ([], settle p st cfg)"

text \<open>
  \<^verbatim>\<open>reject(err)\<close> of lines 181 and 184: the adapter's callback threw, the thenable it
  returned rejected, or \<^verbatim>\<open>cb.catch\<close> could not be called. \<open>faults\<close> keeps the errors for which that call came before any
  \<^verbatim>\<open>resolve\<close> or \<^verbatim>\<open>reject\<close> of the same promise (a history; nothing reads it).
\<close>

definition adapter_fault :: "nat \<Rightarrow> jsval \<Rightarrow> config \<Rightarrow> config" where
  "adapter_fault cid e cfg =
     (let p1 = c_promise (calls cfg ! cid);
          cfg1 = (if alreadyResolved (promise_at cfg p1) then cfg
                  else cfg\<lparr>faults := faults cfg @ [e]\<rparr>)
      in rejectPromise p1 e cfg1)"

text \<open>One call of the adapter on its capability object (lines 167-178).\<close>

fun adapter_call :: "request \<Rightarrow> nat \<Rightarrow> adapter_action \<Rightarrow> config \<Rightarrow> cmd list \<times> config" where
  "adapter_call req cid (Resolve v) cfg = resolveAdapter req cid v cfg"
| "adapter_call req cid (Reject v) cfg = rejectAdapter req cid v cfg"
| "adapter_call req cid (SetCancelCallback cb) cfg = ([], setCancelCallback cb cfg)"
| "adapter_call req cid (Emit n v) cfg = ([], emit (Custom n v) cfg)"
| "adapter_call req cid (AdapterThrow e) cfg = ([], cfg)"

text \<open>
  One piece of synchronous work. A hook that throws (or calls a capability its context
  does not have, a \<^verbatim>\<open>TypeError\<close>) throws inside the executor of \<^verbatim>\<open>new Promise\<close>, which
  rejects the step's promise; an adapter that throws is caught at line 183; a callback
  that returned a thenable gets \<^verbatim>\<open>cb.catch(reject)\<close>, and if that call throws, it throws
  into the same \<^verbatim>\<open>catch\<close>.
\<close>

fun exec :: "request \<Rightarrow> cmd \<Rightarrow> config \<Rightarrow> cmd list \<times> config" where
  "exec req (HookBody s []) cfg = ([], cfg)"
| "exec req (HookBody s (Throw e # rest)) cfg =
     ([], rejectPromise (s_promise (steps cfg ! s)) e cfg)"
| "exec req (HookBody s (Call cap v # rest)) cfg =
     (if has_cap (s_chain (steps cfg ! s)) cap then
        (let (cmds, cfg1) = invoke req s cap v cfg in (cmds @ [HookBody s rest], cfg1))
      else ([], rejectPromise (s_promise (steps cfg ! s)) (Str ''TypeError'') cfg))"
| "exec req (TryResolve s p) cfg = ([], tryResolve req s p cfg)"
| "exec req (AdapterBody cid [] ret) cfg =
     ([], case ret of
            Plain \<Rightarrow> cfg
          | Catchable \<Rightarrow> cfg\<lparr>calls := (calls cfg)[cid := (calls cfg ! cid)\<lparr>c_thenable := True\<rparr>]\<rparr>
          | CatchThrows e \<Rightarrow> adapter_fault cid e cfg)"
| "exec req (AdapterBody cid (AdapterThrow e # rest) ret) cfg =
     ([], adapter_fault cid e cfg)"
| "exec req (AdapterBody cid (a # rest) ret) cfg =
     (let (cmds, cfg1) = adapter_call req cid a cfg in (cmds @ [AdapterBody cid rest ret], cfg1))"
| "exec req (ResolveWith p q) cfg = ([], resolvePromise p (Thenable q) cfg)"
| "exec req (DoRequestTail cid d) cfg = ([], doRequest_tail cid d cfg)"

text \<open>
  The scheduler: synchronous work runs to completion; only then the oldest microtask
  starts. \<open>None\<close>: nothing is left to do.
\<close>

fun step :: "request \<Rightarrow> machine \<Rightarrow> machine option" where
  "step req (c # cs, cfg) = (let (cmds, cfg1) = exec req c cfg in Some (cmds @ cs, cfg1))"
| "step req ([], cfg) =
     (case microtasks cfg of
        [] \<Rightarrow> None
      | j # js \<Rightarrow> Some (run_job req j (cfg\<lparr>microtasks := js\<rparr>)))"

text \<open>
  Running until nothing is left, with fuel: a request can go on for ever (a fail hook
  that retries each time the adapter rejects). \<open>None\<close>: the fuel ran out.
\<close>

fun run :: "nat \<Rightarrow> request \<Rightarrow> machine \<Rightarrow> config option" where
  "run 0 req m = (case step req m of None \<Rightarrow> Some (snd m) | Some m' \<Rightarrow> None)"
| "run (Suc n) req m = (case step req m of None \<Rightarrow> Some (snd m) | Some m' \<Rightarrow> run n req m')"

text \<open>Exactly \<open>n\<close> steps.\<close>

fun nsteps :: "nat \<Rightarrow> request \<Rightarrow> machine \<Rightarrow> machine option" where
  "nsteps 0 req m = Some m"
| "nsteps (Suc n) req m = (case step req m of None \<Rightarrow> None | Some m' \<Rightarrow> nsteps n req m')"

text \<open>
  What the world outside does between two pieces of synchronous work: the caller
  cancels; a hook calls a capability of a context it kept; the adapter calls its
  capability object after its callback has returned; the thenable the callback returned
  rejects. Subscribers of the bus are taken to return normally and to leave the handle
  alone while an event is delivered to them, so \<open>bus.emit\<close> only records the event.
\<close>

datatype input =
    CallCancel
  | LateCall nat capability jsval
  | LateAdapter nat adapter_action
  | ThenableRejects nat jsval

definition is_throw :: "adapter_action \<Rightarrow> bool" where
  "is_throw a = (case a of AdapterThrow e \<Rightarrow> True | _ \<Rightarrow> False)"

definition feed :: "request \<Rightarrow> input \<Rightarrow> config \<Rightarrow> machine" where
  "feed req i cfg =
     (case i of
        CallCancel \<Rightarrow> ([], cancel cfg)
      | LateCall s cap v \<Rightarrow>
          if s < length (steps cfg) \<and> has_cap (s_chain (steps cfg ! s)) cap
          then ([HookBody s [Call cap v]], cfg) else ([], cfg)
      | LateAdapter cid a \<Rightarrow>
          if cid < length (calls cfg) \<and> \<not> is_throw a
          then ([AdapterBody cid [a] Plain], cfg) else ([], cfg)
      | ThenableRejects cid e \<Rightarrow>
          if cid < length (calls cfg) \<and> c_thenable (calls cfg ! cid)
          then ([], adapter_fault cid e cfg) else ([], cfg))"

text \<open>
  \<^verbatim>\<open>apicase(adapter)(req)\<close> (lines 117-278): the handle as created (\<open>init\<close>), and
  \<^verbatim>\<open>res.promise = before(req.payload)\<close>; \<open>completion\<close> is that promise.
\<close>

definition init :: "request \<Rightarrow> config" where
  "init req =
     \<lparr>res = \<lparr>success = False, pending = True, cancelled = False, payload = Obj [],
             result = (case createState (req_adapter req) of Some v \<Rightarrow> v | None \<Rightarrow> Null),
             meta = req_meta req\<rparr>,
      idx_before = 0, idx_done = 0, idx_fail = 0, cancelCallback = Noop,
      bus = [], console = [], invoked = [], faults = [], promises = [], steps = [],
      calls = [], microtasks = []\<rparr>"

definition apicase :: "request \<Rightarrow> machine" where
  "apicase req =
     (let (p, cmds, cfg1) = withPayload req Before (req_payload req) (init req)
      in (cmds, cfg1))"

definition completion :: "request \<Rightarrow> nat" where
  "completion req = fst (withPayload req Before (req_payload req) (init req))"

text \<open>A whole session: each input arrives once everything before it has run.\<close>

fun drive :: "nat \<Rightarrow> request \<Rightarrow> input list \<Rightarrow> machine \<Rightarrow> config option" where
  "drive n req [] m = run n req m"
| "drive n req (i # ins) m =
     (case run n req m of None \<Rightarrow> None | Some cfg \<Rightarrow> drive n req ins (feed req i cfg))"

text \<open>
  Every point of every lifecycle whose inputs are all \<open>allowed\<close>. Inputs may arrive
  while microtasks are still queued (the caller's own promise callbacks run between
  them), but not in the middle of synchronous work.
\<close>

inductive reaches :: "(input \<Rightarrow> bool) \<Rightarrow> request \<Rightarrow> machine \<Rightarrow> bool"
  for allowed :: "input \<Rightarrow> bool" and req :: request where
  start: "reaches allowed req (apicase req)"
| internal: "reaches allowed req m \<Longrightarrow> step req m = Some m' \<Longrightarrow> reaches allowed req m'"
| external: "reaches allowed req ([], cfg) \<Longrightarrow> allowed i \<Longrightarrow> reaches allowed req (feed req i cfg)"

definition reachable :: "request \<Rightarrow> machine \<Rightarrow> bool" where
  "reachable req m = reaches (\<lambda>i. True) req m"

section \<open>Requests used as examples\<close>

text \<open>
  Scenario A of the specification: the adapter resolves with \<^verbatim>\<open>'ok'\<close> at once, the
  payload is \<^verbatim>\<open>{a: 1}\<close>, no hooks.
\<close>

definition adapterA :: adapter where
  "adapterA =
     \<lparr>callback = (\<lambda>ctx. ([Resolve (Str ''ok'')], Plain)), convert = None, createState = None\<rparr>"

definition reqA :: "jsval \<Rightarrow> bool \<Rightarrow> request" where
  "reqA m b =
     \<lparr>req_meta = m, req_payload = Obj [(''a'', Num 1)], hooks_before = [], hooks_done = [],
      hooks_fail = [], req_adapter = adapterA, production = b\<rparr>"

text \<open>An adapter that settles later, if at all.\<close>

definition adapter_idle :: adapter where
  "adapter_idle = \<lparr>callback = (\<lambda>ctx. ([], Plain)), convert = None, createState = None\<rparr>"

definition req_idle :: request where
  "req_idle = (reqA Null False)\<lparr>req_adapter := adapter_idle\<rparr>"

text \<open>One before hook that continues at once; and one that calls \<^verbatim>\<open>next\<close> twice.\<close>

definition req_one :: request where
  "req_one = (reqA Null False)\<lparr>hooks_before := [\<lambda>ctx. [Call CNext (ctx_payload ctx)]]\<rparr>"

definition req_twice :: request where
  "req_twice =
     (reqA Null False)\<lparr>hooks_before :=
       [\<lambda>ctx. [Call CNext (ctx_payload ctx), Call CNext (ctx_payload ctx)]]\<rparr>"




section \<open>Observations\<close>


definition is_ChangePayload :: "event \<Rightarrow> bool" where
  "is_ChangePayload e = (case e of ChangePayload a b \<Rightarrow> True | _ \<Rightarrow> False)"

definition outcome :: "request \<Rightarrow> config \<Rightarrow> settlement option" where
  "outcome req cfg = settled (promise_at cfg (completion req))"

section \<open>Predicates for the invariants\<close>

text \<open>
  Which reactions may be registered on a pending promise, and which jobs may be queued,
  given whether cancellation may have been asked for: the handler of line 12 is always
  attached to a promise that is already fulfilled, so it is never registered; the final
  step of the done and fail chains is queued right after their \<^verbatim>\<open>update\<close>.
\<close>

definition reaction_ok :: "bool \<Rightarrow> reaction \<Rightarrow> bool" where
  "reaction_ok may r = (case r of ThenFinal c v d \<Rightarrow> False | ThenCancel d \<Rightarrow> may | _ \<Rightarrow> True)"

definition job_ok :: "bool \<Rightarrow> state \<Rightarrow> job \<Rightarrow> bool" where
  "job_ok may r j =
     (case j of
        ReactionJob (ThenFinal c v d) st \<Rightarrow> c = Before \<or> \<not> pending r
      | ReactionJob (ThenCancel d) st \<Rightarrow> may
      | _ \<Rightarrow> True)"

definition terminal_event :: "event \<Rightarrow> bool" where
  "terminal_event e =
     (case e of DoneEv r s \<Rightarrow> True | FailEv r s \<Rightarrow> True | FinishEv r s \<Rightarrow> True
      | CancelEv s \<Rightarrow> True | _ \<Rightarrow> False)"

definition state_inv :: "bool \<Rightarrow> config \<Rightarrow> bool" where
  "state_inv may cfg =
     ((pending (res cfg) \<longrightarrow> \<not> success (res cfg) \<and> \<not> cancelled (res cfg)) \<and>
      (cancelled (res cfg) \<longrightarrow> may) \<and>
      (list_ex terminal_event (bus cfg) \<longrightarrow> \<not> pending (res cfg)) \<and>
      list_all (job_ok may (res cfg)) (microtasks cfg) \<and>
      list_all (\<lambda>p. list_all (reaction_ok may) (reactions p)) (promises cfg))"

text \<open>The two branches of \<^verbatim>\<open>withPayload\<close>, as changes of the state.\<close>

definition defer_final :: "chain \<Rightarrow> jsval \<Rightarrow> config \<Rightarrow> config" where
  "defer_final c v cfg =
     enqueue (ReactionJob (ThenFinal c v (Suc (length (promises cfg)))) (Fulfilled Unit))
       (cfg\<lparr>promises := promises cfg @ [fulfilled_promise InPromiseResolve, pending_promise InWithPayload]\<rparr>)"

definition open_step :: "chain \<Rightarrow> config \<Rightarrow> config" where
  "open_step c cfg =
     cfg\<lparr>promises := promises cfg @ [pending_promise InWithPayload],
         steps := steps cfg @ [\<lparr>s_chain = c, s_promise = length (promises cfg), isResolved = False\<rparr>]\<rparr>"

definition hook_ctx_of :: "request \<Rightarrow> chain \<Rightarrow> jsval \<Rightarrow> config \<Rightarrow> hook_ctx" where
  "hook_ctx_of req c v cfg =
     (createContext req c v cfg)\<lparr>ctx_caps := ctx_caps (createContext req c v cfg) @ [CNext]\<rparr>"


text \<open>An adapter that rejects at once, and a fail hook that retries each time.\<close>

definition req_retry :: request where
  "req_retry =
     (reqA Null False)\<lparr>
       req_adapter := \<lparr>callback = (\<lambda>ctx. ([Reject (Str ''bad'')], Plain)), convert = None,
                       createState = None\<rparr>,
       hooks_fail := [\<lambda>ctx. [Call CRetry (Str ''again'')]]\<rparr>"

text \<open>The point at which that fail hook is about to call \<^verbatim>\<open>retry\<close> for the first time.\<close>

definition at_retry :: machine where
  "at_retry = the (nsteps 2 req_retry (apicase req_retry))"

text \<open>A hook that does nothing but call \<^verbatim>\<open>next\<close> once, at once; and one that passes its payload on.\<close>

definition continues_at_once :: "hook \<Rightarrow> bool" where
  "continues_at_once h = (\<forall>ctx. \<exists>v. h ctx = [Call CNext v])"

definition passes_on :: "hook \<Rightarrow> bool" where
  "passes_on h = (\<forall>ctx. h ctx = [Call CNext (ctx_payload ctx)])"

text \<open>
  The payload the handle holds after a list of events, starting from \<open>cur\<close>; and: every
  snapshot that a terminal event carries has the payload the handle held then.
\<close>

fun last_payload :: "jsval \<Rightarrow> event list \<Rightarrow> jsval" where
  "last_payload cur [] = cur"
| "last_payload cur (ChangePayload a b # es) = last_payload b es"
| "last_payload cur (e # es) = last_payload cur es"

fun snapshots_ok :: "jsval \<Rightarrow> event list \<Rightarrow> bool" where
  "snapshots_ok cur [] = True"
| "snapshots_ok cur (ChangePayload a b # es) = snapshots_ok b es"
| "snapshots_ok cur (DoneEv r s # es) = (payload s = cur \<and> snapshots_ok cur es)"
| "snapshots_ok cur (FailEv r s # es) = (payload s = cur \<and> snapshots_ok cur es)"
| "snapshots_ok cur (FinishEv r s # es) = (payload s = cur \<and> snapshots_ok cur es)"
| "snapshots_ok cur (CancelEv s # es) = (payload s = cur \<and> snapshots_ok cur es)"
| "snapshots_ok cur (e # es) = snapshots_ok cur es"

definition payload_inv :: "config \<Rightarrow> bool" where
  "payload_inv cfg =
     (payload (res cfg) = last_payload (Obj []) (bus cfg) \<and> snapshots_ok (Obj []) (bus cfg))"

definition carries :: "event \<Rightarrow> jsval option" where
  "carries e =
     (case e of DoneEv r s \<Rightarrow> Some (payload s) | FailEv r s \<Rightarrow> Some (payload s)
      | FinishEv r s \<Rightarrow> Some (payload s) | CancelEv s \<Rightarrow> Some (payload s) | _ \<Rightarrow> None)"

text \<open>
  A pass-through before hook, an adapter that rejects unless the payload is
  \<^verbatim>\<open>'again'\<close>, and a fail hook that retries with \<^verbatim>\<open>'again'\<close>.
\<close>

definition req_round :: request where
  "req_round =
     (reqA Null False)\<lparr>
       hooks_before := [\<lambda>ctx. [Call CNext (ctx_payload ctx)]],
       req_adapter :=
         \<lparr>callback = (\<lambda>ctx. if a_payload ctx = Str ''again''
                               then ([Resolve (Str ''ok'')], Plain)
                               else ([Reject (Str ''bad'')], Plain)),
          convert = None, createState = None\<rparr>,
       hooks_fail := [\<lambda>ctx. [Call CRetry (Str ''again'')]]\<rparr>"

text \<open>The point at which that fail hook is about to call \<^verbatim>\<open>retry\<close>.\<close>

definition at_round :: machine where
  "at_round = the (nsteps 5 req_round (apicase req_round))"

text \<open>
  A step that has been settled (\<^verbatim>\<open>isResolved\<close>) has had the \<^verbatim>\<open>resolve\<close> of its promise
  called.
\<close>

definition step_ok :: "config \<Rightarrow> hook_step \<Rightarrow> bool" where
  "step_ok cfg st =
     (s_promise st < length (promises cfg) \<and>
      (isResolved st \<longrightarrow> alreadyResolved (promise_at cfg (s_promise st))))"

definition steps_inv :: "config \<Rightarrow> bool" where
  "steps_inv cfg = list_all (step_ok cfg) (steps cfg)"

text \<open>No promise is lost and no call of \<^verbatim>\<open>resolve\<close> is undone.\<close>

definition promises_grow :: "config \<Rightarrow> config \<Rightarrow> bool" where
  "promises_grow cfg cfg' =
     (length (promises cfg) \<le> length (promises cfg') \<and>
      (\<forall>q. alreadyResolved (promise_at cfg q) \<longrightarrow> alreadyResolved (promise_at cfg' q)))"

text \<open>The point at which the hook of \<open>req_twice\<close> tries to settle its step a second time.\<close>

definition at_second :: machine where
  "at_second = the (nsteps 3 req_twice (apicase req_twice))"


text \<open>
  What is known about the error of a rejection, by where the promise was made: nothing
  for a promise of \<^verbatim>\<open>cancel\<close> (level 0); for the promise of \<^verbatim>\<open>doRequest\<close>, that the
  adapter faulted with it (level 1); for every other promise, also that it has been
  emitted as an \<^verbatim>\<open>error\<close> event (level 2).
\<close>

definition level :: "origin \<Rightarrow> nat" where
  "level k = (case k of InCancel \<Rightarrow> 0 | InDoRequest \<Rightarrow> 1 | _ \<Rightarrow> 2)"

definition lvl :: "config \<Rightarrow> nat \<Rightarrow> nat" where
  "lvl cfg p = level (origin (promise_at cfg p))"

definition guarantee :: "nat \<Rightarrow> config \<Rightarrow> jsval \<Rightarrow> bool" where
  "guarantee n cfg e =
     ((1 \<le> n \<longrightarrow> e \<in> set (faults cfg)) \<and> (2 \<le> n \<longrightarrow> ErrorEv e \<in> set (bus cfg)))"

text \<open>What a reaction needs to know about an error it is run with.\<close>

definition need :: "reaction \<Rightarrow> nat" where
  "need r =
     (case r of ThenFinal c v d \<Rightarrow> 2 | CatchThrowError d \<Rightarrow> 1 | ThenCancel d \<Rightarrow> 0 | Adopt p \<Rightarrow> 2)"

definition target_ok :: "config \<Rightarrow> reaction \<Rightarrow> bool" where
  "target_ok cfg r = (case r of ThenCancel d \<Rightarrow> lvl cfg d = 0 | _ \<Rightarrow> True)"

definition promise_ok :: "config \<Rightarrow> promise \<Rightarrow> bool" where
  "promise_ok cfg pr =
     ((\<forall>e. settled pr = Some (Rejected e) \<longrightarrow> guarantee (level (origin pr)) cfg e) \<and>
      list_all (\<lambda>r. need r \<le> level (origin pr) \<and> target_ok cfg r) (reactions pr))"

definition ref2 :: "config \<Rightarrow> nat \<Rightarrow> bool" where
  "ref2 cfg q = (q < length (promises cfg) \<and> lvl cfg q = 2)"

definition job_fits :: "config \<Rightarrow> job \<Rightarrow> bool" where
  "job_fits cfg j =
     (case j of
        ReactionJob r st \<Rightarrow> target_ok cfg r \<and> (\<forall>e. st = Rejected e \<longrightarrow> guarantee (need r) cfg e)
      | ResolveThenableJob p q \<Rightarrow> ref2 cfg q
      | ExternalThenable p st \<Rightarrow> lvl cfg p = 0)"

definition call_ok :: "chain \<Rightarrow> action \<Rightarrow> bool" where
  "call_ok c a = (case a of Call cap v \<Rightarrow> has_cap c cap | Throw e \<Rightarrow> False)"

definition cmd_fits :: "config \<Rightarrow> cmd \<Rightarrow> bool" where
  "cmd_fits cfg c =
     (case c of
        HookBody s acts \<Rightarrow> s < length (steps cfg) \<and> list_all (call_ok (s_chain (steps cfg ! s))) acts
      | TryResolve s p \<Rightarrow> ref2 cfg p
      | AdapterBody cid acts th \<Rightarrow> cid < length (calls cfg)
      | ResolveWith p q \<Rightarrow> ref2 cfg q
      | DoRequestTail cid d \<Rightarrow> cid < length (calls cfg))"

definition call_fits :: "config \<Rightarrow> call \<Rightarrow> bool" where
  "call_fits cfg cl = (lvl cfg (c_promise cl) = 1)"

definition rej_core :: "config \<Rightarrow> bool" where
  "rej_core cfg =
     (list_all (promise_ok cfg) (promises cfg) \<and> list_all (job_fits cfg) (microtasks cfg) \<and>
      list_all (call_fits cfg) (calls cfg))"




text \<open>
  From \<open>cfg\<close> to \<open>cfg'\<close>: faults and events only added, promises only added and their
  origins kept, steps only added and their chains kept, calls only added.
\<close>

definition grows :: "config \<Rightarrow> config \<Rightarrow> bool" where
  "grows cfg cfg' =
     (set (faults cfg) \<subseteq> set (faults cfg') \<and> set (bus cfg) \<subseteq> set (bus cfg') \<and>
      length (promises cfg) \<le> length (promises cfg') \<and>
      (\<forall>p < length (promises cfg). origin (promises cfg' ! p) = origin (promises cfg ! p)) \<and>
      length (steps cfg) \<le> length (steps cfg') \<and>
      (\<forall>s < length (steps cfg). s_chain (steps cfg' ! s) = s_chain (steps cfg ! s)) \<and>
      length (calls cfg) \<le> length (calls cfg'))"

definition yields :: "config \<Rightarrow> cmd list \<times> config \<Rightarrow> bool" where
  "yields cfg r = (rej_core (snd r) \<and> grows cfg (snd r) \<and> list_all (cmd_fits (snd r)) (fst r))"

text \<open>
  An adapter whose callback makes the calls \<open>acts\<close> and returns \<open>ret\<close>, in a request
  without hooks; a request with one before hook that continues at once and an
  adapter whose callback throws; and the state once that request has run.
\<close>

definition adapter_of :: "adapter_action list \<Rightarrow> returned \<Rightarrow> adapter" where
  "adapter_of acts ret = \<lparr>callback = (\<lambda>ctx. (acts, ret)), convert = None, createState = None\<rparr>"

definition req_of :: "adapter_action list \<Rightarrow> returned \<Rightarrow> jsval \<Rightarrow> bool \<Rightarrow> request" where
  "req_of acts ret m b = (reqA m b)\<lparr>req_adapter := adapter_of acts ret\<rparr>"



text \<open>
  The before chain has run to its end: the cursor is at or past the last hook. The
  terminal step of the before chain is queued or has run (the adapter has been called)
  only then.
\<close>

fun is_final :: "reaction \<Rightarrow> bool" where
  "is_final (ThenFinal c v d) = True"
| "is_final r = False"

fun final_before :: "job \<Rightarrow> bool" where
  "final_before (ReactionJob (ThenFinal c v d) st) = (c = Before)"
| "final_before j = False"

definition before_over :: "request \<Rightarrow> config \<Rightarrow> bool" where
  "before_over req cfg = (length (hooks_before req) \<le> idx_before cfg)"

definition ran_inv :: "request \<Rightarrow> config \<Rightarrow> bool" where
  "ran_inv req cfg =
     (list_all (\<lambda>p. list_all (\<lambda>r. \<not> is_final r) (reactions p)) (promises cfg) \<and>
      ((calls cfg \<noteq> [] \<or> list_ex final_before (microtasks cfg)) \<longrightarrow> before_over req cfg))"








text \<open>
  The snapshot a promise is fulfilled with, or a queued job carries, is the snapshot of a
  \<^verbatim>\<open>finish\<close> event that has been emitted.
\<close>

fun snapshot_of :: "settlement \<Rightarrow> state option" where
  "snapshot_of (Fulfilled (Snapshot s)) = Some s"
| "snapshot_of st = None"

fun finish_of :: "state \<Rightarrow> event \<Rightarrow> bool" where
  "finish_of s (FinishEv r s') = (s' = s)"
| "finish_of s e = False"

definition finished :: "event list \<Rightarrow> settlement \<Rightarrow> bool" where
  "finished es st = (case snapshot_of st of Some s \<Rightarrow> list_ex (finish_of s) es | None \<Rightarrow> True)"

fun job_value :: "job \<Rightarrow> settlement option" where
  "job_value (ReactionJob r st) = Some st"
| "job_value (ExternalThenable p st) = Some st"
| "job_value (ResolveThenableJob p q) = None"

definition delivered_ok :: "event list \<Rightarrow> settlement option \<Rightarrow> bool" where
  "delivered_ok es v = (case v of Some st \<Rightarrow> finished es st | None \<Rightarrow> True)"

definition deliv_inv :: "config \<Rightarrow> bool" where
  "deliv_inv cfg =
     (list_all (\<lambda>p. delivered_ok (bus cfg) (settled p)) (promises cfg) \<and>
      list_all (\<lambda>j. delivered_ok (bus cfg) (job_value j)) (microtasks cfg))"


section \<open>Scenario A\<close>

text \<open>
  C8. With the adapter that calls \<^verbatim>\<open>ctx.resolve('ok')\<close> at once, payload \<^verbatim>\<open>{a: 1}\<close>
  and no hooks, the completion promise fulfils with the snapshot
  \<^verbatim>\<open>{success: true, pending: false, cancelled: false, payload: {a: 1}, result: 'ok'}\<close>,
  whatever the meta value and the build mode.
\<close>

theorem scenario_A_completion:
  "map_option (outcome (reqA m b)) (run 20 (reqA m b) (apicase (reqA m b))) =
     Some (Some (Fulfilled (Snapshot
       \<lparr>success = True, pending = False, cancelled = False,
        payload = Obj [(''a'', Num 1)], result = Str ''ok'', meta = m\<rparr>)))"
  by code_simp

section \<open>Change events\<close>

text \<open>
  C1. The \<^verbatim>\<open>change:state\<close> event that \<^verbatim>\<open>setState\<close> emits does not carry the values
  from before the mutation in \<^verbatim>\<open>prev\<close>: \<^verbatim>\<open>prev\<close> and \<^verbatim>\<open>next\<close> are one object, the
  snapshot with the diff already written into it.
\<close>

theorem setState_event_prev_is_next:
  "bus (setState diff cfg) =
     bus cfg @ [ChangeState (foldl assign_prop (pickState (res cfg)) diff)
                            (foldl assign_prop (pickState (res cfg)) diff) diff]"
  by (simp add: setState_def new_object_def Object_assign_def emit_def)

text \<open>
  Cancelling the idle request: the handle was pending, and the event's \<^verbatim>\<open>prev\<close> says it
  was not.
\<close>

lemma cancel_event_prev_not_previous:
  "map_option bus (drive 20 req_idle [CallCancel] (apicase req_idle)) =
     Some [ChangePayload (Obj []) (Obj [(''a'', Num 1)]),
           ChangeState
             \<lparr>success = False, pending = False, cancelled = True,
              payload = Obj [(''a'', Num 1)], result = Null, meta = Null\<rparr>
             \<lparr>success = False, pending = False, cancelled = True,
              payload = Obj [(''a'', Num 1)], result = Null, meta = Null\<rparr>
             [Success False, Pending False, Cancelled True],
           CancelEv
             \<lparr>success = False, pending = False, cancelled = True,
              payload = Obj [(''a'', Num 1)], result = Null, meta = Null\<rparr>]"
  by code_simp


section \<open>What each operation leaves alone\<close>

lemma emit_frame [simp]:
  "res (emit e cfg) = res cfg" "idx_before (emit e cfg) = idx_before cfg"
  "idx_done (emit e cfg) = idx_done cfg" "idx_fail (emit e cfg) = idx_fail cfg"
  "cancelCallback (emit e cfg) = cancelCallback cfg" "console (emit e cfg) = console cfg"
  "invoked (emit e cfg) = invoked cfg" "faults (emit e cfg) = faults cfg"
  "promises (emit e cfg) = promises cfg" "steps (emit e cfg) = steps cfg"
  "calls (emit e cfg) = calls cfg" "microtasks (emit e cfg) = microtasks cfg"
  "bus (emit e cfg) = bus cfg @ [e]"
  by (simp_all add: emit_def)

lemma promise_at_emit [simp]: "promise_at (emit e cfg) p = promise_at cfg p"
  by (simp add: promise_at_def)

lemma enqueue_frame [simp]:
  "res (enqueue j cfg) = res cfg" "idx_before (enqueue j cfg) = idx_before cfg"
  "idx_done (enqueue j cfg) = idx_done cfg" "idx_fail (enqueue j cfg) = idx_fail cfg"
  "cancelCallback (enqueue j cfg) = cancelCallback cfg" "console (enqueue j cfg) = console cfg"
  "invoked (enqueue j cfg) = invoked cfg" "faults (enqueue j cfg) = faults cfg"
  "promises (enqueue j cfg) = promises cfg" "steps (enqueue j cfg) = steps cfg"
  "calls (enqueue j cfg) = calls cfg" "bus (enqueue j cfg) = bus cfg"
  "microtasks (enqueue j cfg) = microtasks cfg @ [j]"
  by (simp_all add: enqueue_def)

lemma new_promise_frame [simp]:
  "res (snd (new_promise pr cfg)) = res cfg" "idx_before (snd (new_promise pr cfg)) = idx_before cfg"
  "idx_done (snd (new_promise pr cfg)) = idx_done cfg" "idx_fail (snd (new_promise pr cfg)) = idx_fail cfg"
  "cancelCallback (snd (new_promise pr cfg)) = cancelCallback cfg" "console (snd (new_promise pr cfg)) = console cfg"
  "invoked (snd (new_promise pr cfg)) = invoked cfg" "faults (snd (new_promise pr cfg)) = faults cfg"
  "steps (snd (new_promise pr cfg)) = steps cfg"
  "calls (snd (new_promise pr cfg)) = calls cfg" "bus (snd (new_promise pr cfg)) = bus cfg"
  "microtasks (snd (new_promise pr cfg)) = microtasks cfg"
  "promises (snd (new_promise pr cfg)) = promises cfg @ [pr]"
  "fst (new_promise pr cfg) = length (promises cfg)"
  by (simp_all add: new_promise_def)

lemma settle_frame [simp]:
  "res (settle p st cfg) = res cfg" "idx_before (settle p st cfg) = idx_before cfg"
  "idx_done (settle p st cfg) = idx_done cfg" "idx_fail (settle p st cfg) = idx_fail cfg"
  "cancelCallback (settle p st cfg) = cancelCallback cfg" "console (settle p st cfg) = console cfg"
  "invoked (settle p st cfg) = invoked cfg" "faults (settle p st cfg) = faults cfg"
  "steps (settle p st cfg) = steps cfg"
  "calls (settle p st cfg) = calls cfg" "bus (settle p st cfg) = bus cfg"
  by (simp_all add: settle_def Let_def)

lemma lock_frame [simp]:
  "res (lock p cfg) = res cfg" "idx_before (lock p cfg) = idx_before cfg"
  "idx_done (lock p cfg) = idx_done cfg" "idx_fail (lock p cfg) = idx_fail cfg"
  "cancelCallback (lock p cfg) = cancelCallback cfg" "console (lock p cfg) = console cfg"
  "invoked (lock p cfg) = invoked cfg" "faults (lock p cfg) = faults cfg"
  "steps (lock p cfg) = steps cfg"
  "calls (lock p cfg) = calls cfg" "bus (lock p cfg) = bus cfg"
  "microtasks (lock p cfg) = microtasks cfg"
  by (simp_all add: lock_def)

lemma resolvePromise_frame [simp]:
  "res (resolvePromise p x cfg) = res cfg" "idx_before (resolvePromise p x cfg) = idx_before cfg"
  "idx_done (resolvePromise p x cfg) = idx_done cfg" "idx_fail (resolvePromise p x cfg) = idx_fail cfg"
  "cancelCallback (resolvePromise p x cfg) = cancelCallback cfg" "console (resolvePromise p x cfg) = console cfg"
  "invoked (resolvePromise p x cfg) = invoked cfg" "faults (resolvePromise p x cfg) = faults cfg"
  "steps (resolvePromise p x cfg) = steps cfg"
  "calls (resolvePromise p x cfg) = calls cfg" "bus (resolvePromise p x cfg) = bus cfg"
  by (simp_all add: resolvePromise_def split: resolution.splits)

lemma rejectPromise_frame [simp]:
  "res (rejectPromise p e cfg) = res cfg" "idx_before (rejectPromise p e cfg) = idx_before cfg"
  "idx_done (rejectPromise p e cfg) = idx_done cfg" "idx_fail (rejectPromise p e cfg) = idx_fail cfg"
  "cancelCallback (rejectPromise p e cfg) = cancelCallback cfg" "console (rejectPromise p e cfg) = console cfg"
  "invoked (rejectPromise p e cfg) = invoked cfg" "faults (rejectPromise p e cfg) = faults cfg"
  "steps (rejectPromise p e cfg) = steps cfg"
  "calls (rejectPromise p e cfg) = calls cfg" "bus (rejectPromise p e cfg) = bus cfg"
  by (simp_all add: rejectPromise_def)

lemma promise_then_frame [simp]:
  "res (promise_then q r cfg) = res cfg" "idx_before (promise_then q r cfg) = idx_before cfg"
  "idx_done (promise_then q r cfg) = idx_done cfg" "idx_fail (promise_then q r cfg) = idx_fail cfg"
  "cancelCallback (promise_then q r cfg) = cancelCallback cfg" "console (promise_then q r cfg) = console cfg"
  "invoked (promise_then q r cfg) = invoked cfg" "faults (promise_then q r cfg) = faults cfg"
  "steps (promise_then q r cfg) = steps cfg"
  "calls (promise_then q r cfg) = calls cfg" "bus (promise_then q r cfg) = bus cfg"
  by (simp_all add: promise_then_def split: option.splits)

section \<open>The state invariant\<close>

lemma reaction_job_ok: "reaction_ok may r \<Longrightarrow> job_ok may s (ReactionJob r st)"
  by (cases r) (simp_all add: reaction_ok_def job_ok_def)

lemma promise_at_ok:
  "list_all (\<lambda>p. list_all (reaction_ok may) (reactions p)) (promises cfg) \<Longrightarrow>
   list_all (reaction_ok may) (reactions (promise_at cfg p))"
  by (simp add: promise_at_def pending_promise_def list_all_length)

lemma list_all_update [simp]:
  "list_all P xs \<Longrightarrow> P y \<Longrightarrow> list_all P (xs[i := y])"
  unfolding list_all_iff using set_update_subset_insert[of xs i y] by auto

lemma promise_at_ok' [simp]:
  "list_all (\<lambda>p. list_all (reaction_ok may) (reactions p)) (promises cfg) \<Longrightarrow>
   list_all (job_ok may s) (map (\<lambda>r. ReactionJob r st) (reactions (promise_at cfg p)))"
  using promise_at_ok[of may cfg p] by (simp add: list_all_iff reaction_job_ok)

lemma inv_emit: "state_inv may cfg \<Longrightarrow> \<not> terminal_event e \<or> \<not> pending (res cfg) \<Longrightarrow> state_inv may (emit e cfg)"
  by (auto simp: state_inv_def emit_def)








lemma update_frame [simp]:
  "idx_before (update c v cfg) = idx_before cfg"
  "idx_done (update c v cfg) = idx_done cfg" "idx_fail (update c v cfg) = idx_fail cfg"
  "cancelCallback (update c v cfg) = cancelCallback cfg" "console (update c v cfg) = console cfg"
  "invoked (update c v cfg) = invoked cfg" "faults (update c v cfg) = faults cfg"
  "promises (update c v cfg) = promises cfg" "steps (update c v cfg) = steps cfg"
  "calls (update c v cfg) = calls cfg" "microtasks (update c v cfg) = microtasks cfg"
  by (simp_all add: update_def emit_def split: chain.splits)

lemma promise_at_update [simp]: "promise_at (update c v cfg) p = promise_at cfg p"
  by (simp add: promise_at_def)

lemma idx_update [simp]: "idx c' (update c v cfg) = idx c' cfg"
  by (simp add: idx_def split: chain.splits)

lemma withPayload_terminal:
  "length (hooks req c) \<le> idx c cfg \<Longrightarrow>
   withPayload req c v cfg = (Suc (length (promises cfg)), [], defer_final c v (update c v cfg))"
  by (simp add: withPayload_def Let_def split_def new_promise_def promise_then_def promise_at_def
      nth_append fulfilled_promise_def defer_final_def enqueue_def)

lemma createContext_open_step [simp]: "createContext req c v (open_step c' cfg) = createContext req c v cfg"
  by (cases c) (simp_all add: createContext_def open_step_def)

lemma withPayload_hook:
  "idx c cfg < length (hooks req c) \<Longrightarrow>
   withPayload req c v cfg =
     (length (promises cfg),
      [HookBody (length (steps cfg)) ((hooks req c ! idx c cfg) (hook_ctx_of req c v cfg))],
      open_step c cfg)"
  by (cases c) (simp_all add: withPayload_def Let_def split_def new_promise_def open_step_def hook_ctx_of_def createContext_def)

lemma job_ok_mono: "job_ok may r j \<Longrightarrow> (pending r' \<longrightarrow> pending r) \<Longrightarrow> job_ok may r' j"
  by (auto simp: job_ok_def split: job.splits reaction.splits)

lemma jobs_ok_mono:
  "list_all (job_ok may r) js \<Longrightarrow> (pending r' \<longrightarrow> pending r) \<Longrightarrow> list_all (job_ok may r') js"
  by (induction js) (auto intro: job_ok_mono)

lemma inv_res:
  "state_inv may cfg \<Longrightarrow> (pending r' \<longrightarrow> pending (res cfg) \<and> \<not> success r' \<and> \<not> cancelled r') \<Longrightarrow>
   (cancelled r' \<longrightarrow> may) \<Longrightarrow> state_inv may (cfg\<lparr>res := r'\<rparr>)"
  unfolding state_inv_def using jobs_ok_mono[of may "res cfg" "microtasks cfg" r'] by auto

lemma inv_update: "state_inv may cfg \<Longrightarrow> state_inv may (update c v cfg)"
proof -
  assume a: "state_inv may cfg"
  have nt: "\<not> terminal_event (ChangePayload x y)" "\<not> terminal_event (ChangeResult x y)" for x y
    by (simp_all add: terminal_event_def)
  have c: "\<not> cancelled (res cfg) \<or> may" "pending (res cfg) \<longrightarrow> \<not> success (res cfg) \<and> \<not> cancelled (res cfg)"
    using a by (auto simp: state_inv_def)
  show ?thesis
    unfolding update_def Let_def using c
    by (auto split: chain.splits intro!: inv_res inv_emit a simp: nt)
qed

lemma inv_defer_final:
  "state_inv may cfg \<Longrightarrow> c = Before \<or> \<not> pending (res cfg) \<Longrightarrow> state_inv may (defer_final c v cfg)"
  by (simp add: defer_final_def state_inv_def enqueue_def job_ok_def fulfilled_promise_def pending_promise_def)

lemma inv_open_step: "state_inv may cfg \<Longrightarrow> state_inv may (open_step c cfg)"
  by (simp add: open_step_def state_inv_def pending_promise_def)

lemma pending_update: "c \<noteq> Before \<Longrightarrow> \<not> pending (res (update c v cfg))"
  by (simp add: update_def split: chain.splits)

lemma inv_withPayload: "state_inv may cfg \<Longrightarrow> state_inv may (snd (snd (withPayload req c v cfg)))"
  by (cases "idx c cfg < length (hooks req c)")
     (auto simp: withPayload_hook withPayload_terminal inv_open_step pending_update intro!: inv_defer_final inv_update)

lemma inv_fields [simp]:
  "state_inv may (cfg\<lparr>console := a\<rparr>) = state_inv may cfg"
  "state_inv may (cfg\<lparr>invoked := b\<rparr>) = state_inv may cfg"
  "state_inv may (cfg\<lparr>faults := c\<rparr>) = state_inv may cfg"
  "state_inv may (cfg\<lparr>steps := d\<rparr>) = state_inv may cfg"
  "state_inv may (cfg\<lparr>calls := e\<rparr>) = state_inv may cfg"
  "state_inv may (cfg\<lparr>cancelCallback := f\<rparr>) = state_inv may cfg"
  "state_inv may (cfg\<lparr>idx_before := g\<rparr>) = state_inv may cfg"
  "state_inv may (cfg\<lparr>idx_done := h\<rparr>) = state_inv may cfg"
  "state_inv may (cfg\<lparr>idx_fail := i\<rparr>) = state_inv may cfg"
  by (simp_all add: state_inv_def)

lemma inv_incr_idx [simp]: "state_inv may (incr_idx c cfg) = state_inv may cfg"
  by (cases c) (simp_all add: incr_idx_def)





lemma inv_resolveAdapter: "state_inv may cfg \<Longrightarrow> state_inv may (snd (resolveAdapter req cid v cfg))"
  by (simp add: resolveAdapter_def split_def Let_def inv_withPayload)

lemma inv_rejectAdapter: "state_inv may cfg \<Longrightarrow> state_inv may (snd (rejectAdapter req cid v cfg))"
  by (simp add: rejectAdapter_def split_def Let_def inv_withPayload)












lemma inv_adapter_call: "state_inv may cfg \<Longrightarrow> state_inv may (snd (adapter_call req cid a cfg))"
  by (cases a) (simp_all add: inv_resolveAdapter inv_rejectAdapter setCancelCallback_def
      inv_emit terminal_event_def)






section \<open>Runs stay inside the reachable points\<close>


lemma reaches_nsteps:
  "nsteps n req m = Some m' \<Longrightarrow> reaches a req m \<Longrightarrow> reaches a req m'"
proof (induction n arbitrary: m)
  case 0
  then show ?case by simp
next
  case (Suc n)
  then show ?case by (auto split: option.splits intro: reaches.internal)
qed




section \<open>The invariant of the state record\<close>




section \<open>What each function of the source leaves alone\<close>

lemma setState_frame [simp]:
  "idx_before (setState diff cfg) = idx_before cfg"
  "idx_done (setState diff cfg) = idx_done cfg"
  "idx_fail (setState diff cfg) = idx_fail cfg"
  "cancelCallback (setState diff cfg) = cancelCallback cfg"
  "console (setState diff cfg) = console cfg"
  "invoked (setState diff cfg) = invoked cfg"
  "faults (setState diff cfg) = faults cfg"
  "steps (setState diff cfg) = steps cfg"
  "calls (setState diff cfg) = calls cfg"
  "promises (setState diff cfg) = promises cfg"
  "microtasks (setState diff cfg) = microtasks cfg"
  by (simp_all add: setState_def split_def Let_def)

lemma incr_idx_frame [simp]:
  "res (incr_idx c cfg) = res cfg"
  "bus (incr_idx c cfg) = bus cfg"
  "cancelCallback (incr_idx c cfg) = cancelCallback cfg"
  "console (incr_idx c cfg) = console cfg"
  "invoked (incr_idx c cfg) = invoked cfg"
  "faults (incr_idx c cfg) = faults cfg"
  "steps (incr_idx c cfg) = steps cfg"
  "calls (incr_idx c cfg) = calls cfg"
  "promises (incr_idx c cfg) = promises cfg"
  "microtasks (incr_idx c cfg) = microtasks cfg"
  by (cases c; simp add: incr_idx_def)+

lemma defer_final_frame [simp]:
  "res (defer_final c v cfg) = res cfg"
  "bus (defer_final c v cfg) = bus cfg"
  "idx_before (defer_final c v cfg) = idx_before cfg"
  "idx_done (defer_final c v cfg) = idx_done cfg"
  "idx_fail (defer_final c v cfg) = idx_fail cfg"
  "cancelCallback (defer_final c v cfg) = cancelCallback cfg"
  "console (defer_final c v cfg) = console cfg"
  "invoked (defer_final c v cfg) = invoked cfg"
  "faults (defer_final c v cfg) = faults cfg"
  "steps (defer_final c v cfg) = steps cfg"
  "calls (defer_final c v cfg) = calls cfg"
  by (simp_all add: defer_final_def)

lemma open_step_frame [simp]:
  "res (open_step c cfg) = res cfg"
  "bus (open_step c cfg) = bus cfg"
  "idx_before (open_step c cfg) = idx_before cfg"
  "idx_done (open_step c cfg) = idx_done cfg"
  "idx_fail (open_step c cfg) = idx_fail cfg"
  "cancelCallback (open_step c cfg) = cancelCallback cfg"
  "console (open_step c cfg) = console cfg"
  "invoked (open_step c cfg) = invoked cfg"
  "faults (open_step c cfg) = faults cfg"
  "calls (open_step c cfg) = calls cfg"
  "microtasks (open_step c cfg) = microtasks cfg"
  by (simp_all add: open_step_def)

lemma withPayload_frame [simp]:
  "idx_before (snd (snd (withPayload req c v cfg))) = idx_before cfg"
  "idx_done (snd (snd (withPayload req c v cfg))) = idx_done cfg"
  "idx_fail (snd (snd (withPayload req c v cfg))) = idx_fail cfg"
  "cancelCallback (snd (snd (withPayload req c v cfg))) = cancelCallback cfg"
  "console (snd (snd (withPayload req c v cfg))) = console cfg"
  "invoked (snd (snd (withPayload req c v cfg))) = invoked cfg"
  "faults (snd (snd (withPayload req c v cfg))) = faults cfg"
  "calls (snd (snd (withPayload req c v cfg))) = calls cfg"
  by (cases "idx c cfg < length (hooks req c)"; simp add: withPayload_hook withPayload_terminal)+

lemma tryResolve_frame [simp]:
  "res (tryResolve req s p cfg) = res cfg"
  "bus (tryResolve req s p cfg) = bus cfg"
  "idx_before (tryResolve req s p cfg) = idx_before cfg"
  "idx_done (tryResolve req s p cfg) = idx_done cfg"
  "idx_fail (tryResolve req s p cfg) = idx_fail cfg"
  "cancelCallback (tryResolve req s p cfg) = cancelCallback cfg"
  "invoked (tryResolve req s p cfg) = invoked cfg"
  "faults (tryResolve req s p cfg) = faults cfg"
  "calls (tryResolve req s p cfg) = calls cfg"
  by (simp_all add: tryResolve_def Let_def)

lemma changeFlow_frame [simp]:
  "idx_before (snd (changeFlow req c s v cfg)) = idx_before cfg"
  "idx_done (snd (changeFlow req c s v cfg)) = idx_done cfg"
  "idx_fail (snd (changeFlow req c s v cfg)) = idx_fail cfg"
  "cancelCallback (snd (changeFlow req c s v cfg)) = cancelCallback cfg"
  "console (snd (changeFlow req c s v cfg)) = console cfg"
  "invoked (snd (changeFlow req c s v cfg)) = invoked cfg"
  "faults (snd (changeFlow req c s v cfg)) = faults cfg"
  "calls (snd (changeFlow req c s v cfg)) = calls cfg"
  by (simp_all add: changeFlow_def split_def Let_def)

lemma ctx_next_frame [simp]:
  "cancelCallback (snd (ctx_next req s v cfg)) = cancelCallback cfg"
  "console (snd (ctx_next req s v cfg)) = console cfg"
  "invoked (snd (ctx_next req s v cfg)) = invoked cfg"
  "faults (snd (ctx_next req s v cfg)) = faults cfg"
  "calls (snd (ctx_next req s v cfg)) = calls cfg"
  by (simp_all add: ctx_next_def split_def Let_def)

lemma invoke_frame [simp]:
  "cancelCallback (snd (invoke req s cap v cfg)) = cancelCallback cfg"
  "console (snd (invoke req s cap v cfg)) = console cfg"
  "invoked (snd (invoke req s cap v cfg)) = invoked cfg"
  "faults (snd (invoke req s cap v cfg)) = faults cfg"
  "calls (snd (invoke req s cap v cfg)) = calls cfg"
  by (cases cap; simp add: invoke_def)+

lemma resolveAdapter_frame [simp]:
  "idx_before (snd (resolveAdapter req cid v cfg)) = idx_before cfg"
  "idx_done (snd (resolveAdapter req cid v cfg)) = idx_done cfg"
  "idx_fail (snd (resolveAdapter req cid v cfg)) = idx_fail cfg"
  "cancelCallback (snd (resolveAdapter req cid v cfg)) = cancelCallback cfg"
  "console (snd (resolveAdapter req cid v cfg)) = console cfg"
  "invoked (snd (resolveAdapter req cid v cfg)) = invoked cfg"
  "faults (snd (resolveAdapter req cid v cfg)) = faults cfg"
  "calls (snd (resolveAdapter req cid v cfg)) = calls cfg"
  by (simp_all add: resolveAdapter_def split_def Let_def)

lemma rejectAdapter_frame [simp]:
  "idx_before (snd (rejectAdapter req cid v cfg)) = idx_before cfg"
  "idx_done (snd (rejectAdapter req cid v cfg)) = idx_done cfg"
  "idx_fail (snd (rejectAdapter req cid v cfg)) = idx_fail cfg"
  "cancelCallback (snd (rejectAdapter req cid v cfg)) = cancelCallback cfg"
  "console (snd (rejectAdapter req cid v cfg)) = console cfg"
  "invoked (snd (rejectAdapter req cid v cfg)) = invoked cfg"
  "faults (snd (rejectAdapter req cid v cfg)) = faults cfg"
  "calls (snd (rejectAdapter req cid v cfg)) = calls cfg"
  by (simp_all add: rejectAdapter_def split_def Let_def)

lemma doRequest_frame [simp]:
  "res (snd (doRequest req v d cfg)) = res cfg"
  "bus (snd (doRequest req v d cfg)) = bus cfg"
  "idx_before (snd (doRequest req v d cfg)) = idx_before cfg"
  "idx_done (snd (doRequest req v d cfg)) = idx_done cfg"
  "idx_fail (snd (doRequest req v d cfg)) = idx_fail cfg"
  "cancelCallback (snd (doRequest req v d cfg)) = cancelCallback cfg"
  "console (snd (doRequest req v d cfg)) = console cfg"
  "invoked (snd (doRequest req v d cfg)) = invoked cfg"
  "faults (snd (doRequest req v d cfg)) = faults cfg"
  "steps (snd (doRequest req v d cfg)) = steps cfg"
  "microtasks (snd (doRequest req v d cfg)) = microtasks cfg"
  by (simp_all add: doRequest_def split_def Let_def split: sum.splits)

lemma doRequest_tail_frame [simp]:
  "res (doRequest_tail cid d cfg) = res cfg"
  "bus (doRequest_tail cid d cfg) = bus cfg"
  "idx_before (doRequest_tail cid d cfg) = idx_before cfg"
  "idx_done (doRequest_tail cid d cfg) = idx_done cfg"
  "idx_fail (doRequest_tail cid d cfg) = idx_fail cfg"
  "cancelCallback (doRequest_tail cid d cfg) = cancelCallback cfg"
  "console (doRequest_tail cid d cfg) = console cfg"
  "invoked (doRequest_tail cid d cfg) = invoked cfg"
  "faults (doRequest_tail cid d cfg) = faults cfg"
  "steps (doRequest_tail cid d cfg) = steps cfg"
  "calls (doRequest_tail cid d cfg) = calls cfg"
  by (simp_all add: doRequest_tail_def split_def Let_def)

lemma throwError_frame [simp]:
  "res (throwError e d cfg) = res cfg"
  "idx_before (throwError e d cfg) = idx_before cfg"
  "idx_done (throwError e d cfg) = idx_done cfg"
  "idx_fail (throwError e d cfg) = idx_fail cfg"
  "cancelCallback (throwError e d cfg) = cancelCallback cfg"
  "console (throwError e d cfg) = console cfg"
  "invoked (throwError e d cfg) = invoked cfg"
  "faults (throwError e d cfg) = faults cfg"
  "steps (throwError e d cfg) = steps cfg"
  "calls (throwError e d cfg) = calls cfg"
  by (simp_all add: throwError_def)

lemma final_frame [simp]:
  "res (snd (final req c v d cfg)) = res cfg"
  "idx_before (snd (final req c v d cfg)) = idx_before cfg"
  "idx_done (snd (final req c v d cfg)) = idx_done cfg"
  "idx_fail (snd (final req c v d cfg)) = idx_fail cfg"
  "cancelCallback (snd (final req c v d cfg)) = cancelCallback cfg"
  "console (snd (final req c v d cfg)) = console cfg"
  "invoked (snd (final req c v d cfg)) = invoked cfg"
  "faults (snd (final req c v d cfg)) = faults cfg"
  "steps (snd (final req c v d cfg)) = steps cfg"
  by (cases c; simp add: final_def Let_def)+

lemma adapter_fault_frame [simp]:
  "res (adapter_fault cid e cfg) = res cfg"
  "bus (adapter_fault cid e cfg) = bus cfg"
  "idx_before (adapter_fault cid e cfg) = idx_before cfg"
  "idx_done (adapter_fault cid e cfg) = idx_done cfg"
  "idx_fail (adapter_fault cid e cfg) = idx_fail cfg"
  "cancelCallback (adapter_fault cid e cfg) = cancelCallback cfg"
  "console (adapter_fault cid e cfg) = console cfg"
  "invoked (adapter_fault cid e cfg) = invoked cfg"
  "steps (adapter_fault cid e cfg) = steps cfg"
  "calls (adapter_fault cid e cfg) = calls cfg"
  by (simp_all add: adapter_fault_def Let_def)

lemma cancel_handler_frame [simp]:
  "idx_before (cancel_handler d cfg) = idx_before cfg"
  "idx_done (cancel_handler d cfg) = idx_done cfg"
  "idx_fail (cancel_handler d cfg) = idx_fail cfg"
  "cancelCallback (cancel_handler d cfg) = cancelCallback cfg"
  "console (cancel_handler d cfg) = console cfg"
  "invoked (cancel_handler d cfg) = invoked cfg"
  "faults (cancel_handler d cfg) = faults cfg"
  "steps (cancel_handler d cfg) = steps cfg"
  "calls (cancel_handler d cfg) = calls cfg"
  by (simp_all add: cancel_handler_def Let_def)

lemma cancel_frame [simp]:
  "res (cancel cfg) = res cfg"
  "bus (cancel cfg) = bus cfg"
  "idx_before (cancel cfg) = idx_before cfg"
  "idx_done (cancel cfg) = idx_done cfg"
  "idx_fail (cancel cfg) = idx_fail cfg"
  "cancelCallback (cancel cfg) = cancelCallback cfg"
  "console (cancel cfg) = console cfg"
  "faults (cancel cfg) = faults cfg"
  "steps (cancel cfg) = steps cfg"
  "calls (cancel cfg) = calls cfg"
  by (simp_all add: cancel_def Let_def split_def split: cb_behaviour.splits)

lemma react_frame [simp]:
  "idx_before (snd (react req r st cfg)) = idx_before cfg"
  "idx_done (snd (react req r st cfg)) = idx_done cfg"
  "idx_fail (snd (react req r st cfg)) = idx_fail cfg"
  "cancelCallback (snd (react req r st cfg)) = cancelCallback cfg"
  "console (snd (react req r st cfg)) = console cfg"
  "invoked (snd (react req r st cfg)) = invoked cfg"
  "faults (snd (react req r st cfg)) = faults cfg"
  "steps (snd (react req r st cfg)) = steps cfg"
  by (cases r; cases st; simp)+

lemma run_job_frame [simp]:
  "idx_before (snd (run_job req j cfg)) = idx_before cfg"
  "idx_done (snd (run_job req j cfg)) = idx_done cfg"
  "idx_fail (snd (run_job req j cfg)) = idx_fail cfg"
  "cancelCallback (snd (run_job req j cfg)) = cancelCallback cfg"
  "console (snd (run_job req j cfg)) = console cfg"
  "invoked (snd (run_job req j cfg)) = invoked cfg"
  "faults (snd (run_job req j cfg)) = faults cfg"
  "steps (snd (run_job req j cfg)) = steps cfg"
  by (cases j; simp)+

lemma adapter_call_frame [simp]:
  "idx_before (snd (adapter_call req cid a cfg)) = idx_before cfg"
  "idx_done (snd (adapter_call req cid a cfg)) = idx_done cfg"
  "idx_fail (snd (adapter_call req cid a cfg)) = idx_fail cfg"
  "console (snd (adapter_call req cid a cfg)) = console cfg"
  "invoked (snd (adapter_call req cid a cfg)) = invoked cfg"
  "faults (snd (adapter_call req cid a cfg)) = faults cfg"
  "calls (snd (adapter_call req cid a cfg)) = calls cfg"
  by (cases a; simp add: setCancelCallback_def)+

section \<open>Cancellation\<close>

lemma pickState_id [simp]: "pickState r = r"
  by (simp add: pickState_def)






lemma cancel_returns:
  "behaviour (cancelCallback cfg) = Returns \<Longrightarrow>
   microtasks (cancel cfg) =
     microtasks cfg @ [ReactionJob (ThenCancel (Suc (length (promises cfg)))) (Fulfilled Unit)]"
  by (simp add: cancel_def Let_def split_def new_promise_def promise_then_def promise_at_def
      nth_append fulfilled_promise_def enqueue_def)









section \<open>The cursors\<close>

lemma step_Cons:
  "step req (c # cs, cfg) = Some (fst (exec req c cfg) @ cs, snd (exec req c cfg))"
  by (simp add: split_def Let_def)

lemma step_exists: "fst m = c # cs \<Longrightarrow> \<exists>m'. step req m = Some m'"
  by (cases m) (auto simp: split_def Let_def)

lemma idx_frame [simp]:
  "idx c (emit e cfg) = idx c cfg" "idx c (enqueue j cfg) = idx c cfg"
  "idx c (settle p st cfg) = idx c cfg" "idx c (resolvePromise p x cfg) = idx c cfg"
  "idx c (rejectPromise p e' cfg) = idx c cfg" "idx c (promise_then q r cfg) = idx c cfg"
  "idx c (setState diff cfg) = idx c cfg" "idx c (defer_final c' v cfg) = idx c cfg"
  "idx c (open_step c' cfg) = idx c cfg"
  "idx c (snd (snd (withPayload req c' v cfg))) = idx c cfg"
  "idx c (tryResolve req s p cfg) = idx c cfg"
  "idx c (snd (changeFlow req c' s v cfg)) = idx c cfg"
  "idx c (snd (resolveAdapter req cid v cfg)) = idx c cfg"
  "idx c (snd (rejectAdapter req cid v cfg)) = idx c cfg"
  "idx c (snd (doRequest req v d cfg)) = idx c cfg"
  "idx c (doRequest_tail cid d cfg) = idx c cfg"
  "idx c (throwError e' d cfg) = idx c cfg"
  "idx c (snd (final req c' v d cfg)) = idx c cfg"
  "idx c (adapter_fault cid e' cfg) = idx c cfg"
  "idx c (cancel_handler d cfg) = idx c cfg"
  "idx c (cancel cfg) = idx c cfg"
  "idx c (snd (react req r st cfg)) = idx c cfg"
  "idx c (snd (run_job req j cfg)) = idx c cfg"
  "idx c (snd (adapter_call req cid a cfg)) = idx c cfg"
  "idx c (cfg\<lparr>microtasks := js\<rparr>) = idx c cfg"
  "idx c (cfg\<lparr>calls := cs\<rparr>) = idx c cfg"
  "idx c (setCancelCallback cb cfg) = idx c cfg"
  by (cases c; simp add: idx_def setCancelCallback_def)+

lemma idx_incr_idx: "idx c (incr_idx c' cfg) = (if c = c' then Suc (idx c cfg) else idx c cfg)"
  by (cases c; cases c'; simp add: idx_def incr_idx_def)

lemma idx_ctx_next:
  "idx c (snd (ctx_next req s v cfg)) =
     (if c = s_chain (steps cfg ! s) then Suc (idx c cfg) else idx c cfg)"
  by (simp add: ctx_next_def split_def Let_def idx_incr_idx)

lemma idx_invoke: "idx c cfg \<le> idx c (snd (invoke req s cap v cfg))"
  by (cases cap) (simp_all add: invoke_def idx_ctx_next)

lemma idx_exec: "idx c cfg \<le> idx c (snd (exec req cmd cfg))"
  by (induction req cmd cfg rule: exec.induct)
     (simp_all add: split_def Let_def idx_invoke split: returned.splits)

lemma idx_step: "step req m = Some m' \<Longrightarrow> idx c (snd m) \<le> idx c (snd m')"
proof (cases m)
  case (Pair stk cfg)
  assume s: "step req m = Some m'"
  show ?thesis
  proof (cases stk)
    case Nil
    then show ?thesis using s Pair by (auto split: list.splits)
  next
    case (Cons cmd cs)
    then show ?thesis using s Pair idx_exec[of c cfg req cmd] by (auto simp: split_def Let_def)
  qed
qed

lemma idx_feed: "idx c (snd (feed req i cfg)) = idx c cfg"
  by (cases i) (simp_all add: feed_def)

lemma retry_terminal:
  assumes "length (hooks_before req) \<le> idx_before cfg" and "s_chain (steps cfg ! s) = Fail"
  shows "exec req (HookBody s (Call CRetry v # rest)) cfg =
           ([TryResolve s (Suc (length (promises cfg))), HookBody s rest],
            defer_final Before v (update Before v cfg))"
  using assms
  by (simp add: has_cap_def invoke_def changeFlow_def withPayload_terminal hooks_def idx_def)

section \<open>The adapter is called only after the before chain\<close>

lemma ran_keep:
  "ran_inv req cfg \<Longrightarrow> promises cfg' = promises cfg \<Longrightarrow> calls cfg' = calls cfg \<Longrightarrow>
   microtasks cfg' = microtasks cfg \<Longrightarrow> idx_before cfg \<le> idx_before cfg' \<Longrightarrow> ran_inv req cfg'"
  by (auto simp: ran_inv_def before_over_def)

lemma ran_at: "ran_inv req cfg \<Longrightarrow> list_all (\<lambda>r. \<not> is_final r) (reactions (promise_at cfg p))"
  by (simp add: ran_inv_def promise_at_def list_all_length pending_promise_def)

lemma ran_emit: "ran_inv req cfg \<Longrightarrow> ran_inv req (emit e cfg)"
  by (rule ran_keep[of req cfg]) simp_all

lemma ran_enqueue:
  "ran_inv req cfg \<Longrightarrow> (final_before j \<longrightarrow> before_over req cfg) \<Longrightarrow> ran_inv req (enqueue j cfg)"
  by (auto simp: ran_inv_def before_over_def)

lemma ran_new_promise:
  "ran_inv req cfg \<Longrightarrow> reactions pr = [] \<Longrightarrow> ran_inv req (snd (new_promise pr cfg))"
  by (auto simp: ran_inv_def before_over_def)

lemma no_final_jobs:
  "list_all (\<lambda>r. \<not> is_final r) rs \<Longrightarrow> \<not> list_ex final_before (map (\<lambda>r. ReactionJob r st) rs)"
proof (induction rs)
  case Nil
  then show ?case by simp
next
  case (Cons r rs)
  then show ?case by (cases r) simp_all
qed

lemma ran_settle: "ran_inv req cfg \<Longrightarrow> ran_inv req (settle p st cfg)"
proof -
  assume a: "ran_inv req cfg"
  have n: "\<not> list_ex final_before (map (\<lambda>r. ReactionJob r st) (reactions (promise_at cfg p)))"
    using no_final_jobs[OF ran_at[OF a]] .
  have "list_all (\<lambda>p. list_all (\<lambda>r. \<not> is_final r) (reactions p))
          ((promises cfg)[p := (promise_at cfg p)\<lparr>settled := Some st, reactions := []\<rparr>])"
    using a by (simp add: ran_inv_def)
  then show ?thesis using a n
    by (auto simp: ran_inv_def before_over_def settle_def Let_def)
qed

lemma ran_lock: "ran_inv req cfg \<Longrightarrow> ran_inv req (lock p cfg)"
proof -
  assume a: "ran_inv req cfg"
  have "list_all (\<lambda>r. \<not> is_final r) (reactions ((promise_at cfg p)\<lparr>alreadyResolved := True\<rparr>))"
    using ran_at[OF a] by simp
  then have "list_all (\<lambda>p. list_all (\<lambda>r. \<not> is_final r) (reactions p))
          ((promises cfg)[p := (promise_at cfg p)\<lparr>alreadyResolved := True\<rparr>])"
    using a by (simp add: ran_inv_def)
  then show ?thesis using a by (simp add: ran_inv_def before_over_def lock_def)
qed

lemma ran_resolve: "ran_inv req cfg \<Longrightarrow> ran_inv req (resolvePromise p x cfg)"
  by (cases x) (simp_all add: resolvePromise_def ran_settle ran_lock ran_enqueue)

lemma ran_reject: "ran_inv req cfg \<Longrightarrow> ran_inv req (rejectPromise p e cfg)"
  by (simp add: rejectPromise_def ran_settle ran_lock)

lemma ran_then:
  assumes a: "ran_inv req cfg" and r: "\<not> is_final r"
  shows "ran_inv req (promise_then q r cfg)"
proof (cases "settled (promise_at cfg q)")
  case None
  have "list_all (\<lambda>r. \<not> is_final r) (reactions (promise_at cfg q) @ [r])"
    using ran_at[OF a] r by simp
  then have "list_all (\<lambda>p. list_all (\<lambda>r. \<not> is_final r) (reactions p))
          ((promises cfg)[q := (promise_at cfg q)\<lparr>reactions := reactions (promise_at cfg q) @ [r]\<rparr>])"
    using a by (simp add: ran_inv_def)
  then show ?thesis using a None by (simp add: ran_inv_def before_over_def promise_then_def)
next
  case (Some st)
  have "\<not> final_before (ReactionJob r st)" using r by (cases r) simp_all
  then show ?thesis using Some ran_enqueue[OF a] by (simp add: promise_then_def)
qed

lemma ran_update: "ran_inv req cfg \<Longrightarrow> ran_inv req (update c v cfg)"
  by (rule ran_keep[of req cfg]) simp_all

lemma ran_incr_idx: "ran_inv req cfg \<Longrightarrow> ran_inv req (incr_idx c cfg)"
  by (rule ran_keep[of req cfg]) (cases c; simp add: incr_idx_def)+

lemma ran_setState: "ran_inv req cfg \<Longrightarrow> ran_inv req (setState d cfg)"
  by (rule ran_keep[of req cfg]) simp_all

lemma ran_open_step: "ran_inv req cfg \<Longrightarrow> ran_inv req (open_step c cfg)"
  by (auto simp: ran_inv_def before_over_def open_step_def pending_promise_def)

lemma ran_defer_final:
  "ran_inv req cfg \<Longrightarrow> (c = Before \<longrightarrow> before_over req cfg) \<Longrightarrow> ran_inv req (defer_final c v cfg)"
  by (auto simp: ran_inv_def before_over_def defer_final_def enqueue_def pending_promise_def
      fulfilled_promise_def)

lemma ran_withPayload: "ran_inv req cfg \<Longrightarrow> ran_inv req (snd (snd (withPayload req c v cfg)))"
proof (cases "length (hooks req c) \<le> idx c cfg")
  case True
  assume a: "ran_inv req cfg"
  have "c = Before \<longrightarrow> before_over req (update c v cfg)"
    using True by (cases c) (simp_all add: before_over_def hooks_def idx_def)
  then show ?thesis using ran_defer_final[OF ran_update[OF a]]
    by (simp add: withPayload_terminal[OF True])
next
  case False
  assume a: "ran_inv req cfg"
  from False have "idx c cfg < length (hooks req c)" by simp
  then show ?thesis using ran_open_step[OF a] by (simp add: withPayload_hook)
qed

lemma ran_steps [simp]: "ran_inv req (cfg\<lparr>steps := ss\<rparr>) = ran_inv req cfg"
  by (simp add: ran_inv_def before_over_def)

lemma ran_console [simp]: "ran_inv req (cfg\<lparr>console := k\<rparr>) = ran_inv req cfg"
  by (simp add: ran_inv_def before_over_def)

lemma ran_invoked [simp]: "ran_inv req (cfg\<lparr>invoked := k\<rparr>) = ran_inv req cfg"
  by (simp add: ran_inv_def before_over_def)

lemma ran_faults [simp]: "ran_inv req (cfg\<lparr>faults := k\<rparr>) = ran_inv req cfg"
  by (simp add: ran_inv_def before_over_def)

lemma ran_cb [simp]: "ran_inv req (setCancelCallback cb cfg) = ran_inv req cfg"
  by (simp add: ran_inv_def before_over_def setCancelCallback_def)

lemma ran_tryResolve: "ran_inv req cfg \<Longrightarrow> ran_inv req (tryResolve req s p cfg)"
  by (simp add: tryResolve_def Let_def ran_resolve)

lemma ran_invoke: "ran_inv req cfg \<Longrightarrow> ran_inv req (snd (invoke req s cap v cfg))"
  by (cases cap)
     (simp_all add: invoke_def ctx_next_def changeFlow_def split_def Let_def ran_withPayload
        ran_update ran_incr_idx)

lemma ran_doRequest:
  "ran_inv req cfg \<Longrightarrow> before_over req cfg \<Longrightarrow> ran_inv req (snd (doRequest req v d cfg))"
  by (auto simp: ran_inv_def before_over_def doRequest_def Let_def split_def new_promise_def
      pending_promise_def split: sum.splits)

lemma ran_doRequest_tail: "ran_inv req cfg \<Longrightarrow> ran_inv req (doRequest_tail cid d cfg)"
  by (simp add: doRequest_tail_def Let_def split_def ran_resolve ran_then ran_new_promise
      pending_promise_def)

lemma ran_final:
  "ran_inv req cfg \<Longrightarrow> (c = Before \<longrightarrow> before_over req cfg) \<Longrightarrow>
   ran_inv req (snd (final req c v d cfg))"
  by (cases c) (simp_all add: final_def Let_def ran_doRequest ran_resolve ran_emit)

lemma ran_cancel_handler: "ran_inv req cfg \<Longrightarrow> ran_inv req (cancel_handler d cfg)"
  by (simp add: cancel_handler_def Let_def ran_resolve ran_emit ran_setState)

lemma ran_cancel: "ran_inv req cfg \<Longrightarrow> ran_inv req (cancel cfg)"
  by (cases "behaviour (cancelCallback cfg)")
     (simp_all add: cancel_def Let_def split_def ran_then ran_new_promise ran_enqueue
        pending_promise_def fulfilled_promise_def locked_promise_def)

lemma ran_adapter_fault: "ran_inv req cfg \<Longrightarrow> ran_inv req (adapter_fault cid e cfg)"
  by (simp add: adapter_fault_def Let_def ran_reject)

lemma ran_adapter_call: "ran_inv req cfg \<Longrightarrow> ran_inv req (snd (adapter_call req cid a cfg))"
  by (cases a)
     (simp_all add: resolveAdapter_def rejectAdapter_def split_def Let_def ran_withPayload ran_emit)

lemma ran_calls_update:
  "ran_inv req cfg \<Longrightarrow> ran_inv req (cfg\<lparr>calls := (calls cfg)[i := x]\<rparr>)"
  by (simp add: ran_inv_def before_over_def)

lemma ran_exec: "ran_inv req cfg \<Longrightarrow> ran_inv req (snd (exec req c cfg))"
  by (induction req c cfg rule: exec.induct)
     (simp_all add: split_def Let_def ran_invoke ran_tryResolve ran_adapter_fault ran_reject
        ran_resolve ran_doRequest_tail ran_adapter_call ran_calls_update resolveAdapter_def
        rejectAdapter_def ran_withPayload ran_emit split: returned.splits)

lemma ran_react:
  "ran_inv req cfg \<Longrightarrow> (final_before (ReactionJob r st) \<longrightarrow> before_over req cfg) \<Longrightarrow>
   ran_inv req (snd (react req r st cfg))"
  by (cases r; cases st)
     (simp_all add: ran_final ran_reject ran_resolve throwError_def ran_emit ran_cancel_handler
        ran_settle)

lemma ran_run_job:
  "ran_inv req cfg \<Longrightarrow> (final_before j \<longrightarrow> before_over req cfg) \<Longrightarrow>
   ran_inv req (snd (run_job req j cfg))"
  by (cases j) (simp_all add: ran_react ran_then ran_settle)

lemma ran_pop:
  "ran_inv req cfg \<Longrightarrow> microtasks cfg = j # js \<Longrightarrow>
   ran_inv req (cfg\<lparr>microtasks := js\<rparr>) \<and> (final_before j \<longrightarrow> before_over req (cfg\<lparr>microtasks := js\<rparr>))"
  by (auto simp: ran_inv_def before_over_def)

lemma ran_step: "ran_inv req (snd m) \<Longrightarrow> step req m = Some m' \<Longrightarrow> ran_inv req (snd m')"
proof (cases m)
  case (Pair stk cfg)
  assume a: "ran_inv req (snd m)" and s: "step req m = Some m'"
  show ?thesis
  proof (cases stk)
    case Nil
    then obtain j js where q: "microtasks cfg = j # js"
      and m': "m' = run_job req j (cfg\<lparr>microtasks := js\<rparr>)"
      using s Pair by (auto split: list.splits)
    show ?thesis using ran_pop[OF _ q, of req] a Pair ran_run_job[of req "cfg\<lparr>microtasks := js\<rparr>" j]
      by (simp add: m')
  next
    case (Cons c cs)
    then show ?thesis using a s Pair ran_exec[of req cfg c] by (auto simp: split_def Let_def)
  qed
qed

lemma ran_feed: "ran_inv req cfg \<Longrightarrow> ran_inv req (snd (feed req i cfg))"
  by (cases i) (simp_all add: feed_def ran_cancel ran_adapter_fault)

lemma ran_reaches: "reaches a req m \<Longrightarrow> ran_inv req (snd m)"
proof (induction rule: reaches.induct)
  case start
  have "ran_inv req (init req)" by (simp add: ran_inv_def init_def)
  then show ?case by (simp add: apicase_def split_def ran_withPayload)
next
  case (internal m m')
  then show ?case using ran_step by blast
next
  case (external cfg i)
  then show ?case using ran_feed[of req cfg i] by simp
qed

text \<open>
  C10. The cursor of a chain is one number for the whole request and no step and no
  input ever lowers it. At every point of every lifecycle at which the adapter has been
  called, the before chain has run to its end: the before cursor has reached the length
  of the hook list. From then on a fail hook that calls \<^verbatim>\<open>retry(v)\<close> invokes no before
  hook: no new step is opened, the cursor stays, the payload becomes \<open>v\<close>, and the only
  thing queued is the deferred \<^verbatim>\<open>final\<close>, which calls the adapter with \<open>v\<close> (through
  \<^verbatim>\<open>convert\<close>, if the adapter has one and it returns).
\<close>

theorem cursor_never_reset:
  "(step req m = Some m' \<longrightarrow> idx c (snd m) \<le> idx c (snd m')) \<and>
   idx c (snd (feed req i cfg)) = idx c cfg \<and>
   (reaches a req (stk, cfg) \<and> calls cfg \<noteq> [] \<longrightarrow> length (hooks_before req) \<le> idx_before cfg) \<and>
   (length (hooks_before req) \<le> idx_before cfg \<and> s_chain (steps cfg ! s) = Fail \<longrightarrow>
      (\<exists>cfg'. exec req (HookBody s (Call CRetry v # rest)) cfg =
                 ([TryResolve s (Suc (length (promises cfg))), HookBody s rest], cfg') \<and>
              steps cfg' = steps cfg \<and> idx_before cfg' = idx_before cfg \<and> calls cfg' = calls cfg \<and>
              payload (res cfg') = v \<and>
              bus cfg' = bus cfg @ [ChangePayload (payload (res cfg)) v] \<and>
              microtasks cfg' =
                microtasks cfg @
                  [ReactionJob (ThenFinal Before v (Suc (length (promises cfg)))) (Fulfilled Unit)])) \<and>
   (converted req v = Inr w \<longrightarrow>
      fst (run_job req (ReactionJob (ThenFinal Before v d) (Fulfilled x)) cfg2) =
        [AdapterBody (length (calls cfg2))
           (fst (callback (req_adapter req) \<lparr>a_payload = w, a_result = result (res cfg2)\<rparr>))
           (snd (callback (req_adapter req) \<lparr>a_payload = w, a_result = result (res cfg2)\<rparr>)),
         DoRequestTail (length (calls cfg2)) d])"
proof -
  have a: "step req m = Some m' \<longrightarrow> idx c (snd m) \<le> idx c (snd m')"
    using idx_step by blast
  have r: "reaches a req (stk, cfg) \<and> calls cfg \<noteq> [] \<longrightarrow> length (hooks_before req) \<le> idx_before cfg"
    using ran_reaches[of a req "(stk, cfg)"] by (auto simp: ran_inv_def before_over_def)
  have b: "length (hooks_before req) \<le> idx_before cfg \<and> s_chain (steps cfg ! s) = Fail \<longrightarrow>
      (\<exists>cfg'. exec req (HookBody s (Call CRetry v # rest)) cfg =
                 ([TryResolve s (Suc (length (promises cfg))), HookBody s rest], cfg') \<and>
              steps cfg' = steps cfg \<and> idx_before cfg' = idx_before cfg \<and> calls cfg' = calls cfg \<and>
              payload (res cfg') = v \<and>
              bus cfg' = bus cfg @ [ChangePayload (payload (res cfg)) v] \<and>
              microtasks cfg' =
                microtasks cfg @
                  [ReactionJob (ThenFinal Before v (Suc (length (promises cfg)))) (Fulfilled Unit)])"
    using retry_terminal[of req cfg s v rest]
    by (auto simp: defer_final_def update_def enqueue_def emit_def)
  have d: "(converted req v = Inr w \<longrightarrow>
      fst (run_job req (ReactionJob (ThenFinal Before v d) (Fulfilled x)) cfg2) =
        [AdapterBody (length (calls cfg2))
           (fst (callback (req_adapter req) \<lparr>a_payload = w, a_result = result (res cfg2)\<rparr>))
           (snd (callback (req_adapter req) \<lparr>a_payload = w, a_result = result (res cfg2)\<rparr>)),
         DoRequestTail (length (calls cfg2)) d])"
    by (simp add: final_def doRequest_def split_def Let_def new_promise_def)
  show ?thesis using a r b d idx_feed[of c req i cfg] by blast
qed

theorem cursor_never_reset_witness:
  "reachable req_round at_round \<and>
   fst at_round = [HookBody 1 [Call CRetry (Str ''again'')], ResolveWith 3 4,
                   AdapterBody 0 [] Plain, DoRequestTail 0 2] \<and>
   length (hooks_before req_round) = 1 \<and> calls (snd at_round) \<noteq> [] \<and>
   s_chain (steps (snd at_round) ! 1) = Fail \<and>
   length (hooks_before req_round) \<le> idx_before (snd at_round) \<and>
   (\<exists>cfg'. exec req_round (HookBody 1 [Call CRetry (Str ''again'')]) (snd at_round) =
              ([TryResolve 1 (Suc (length (promises (snd at_round)))), HookBody 1 []], cfg') \<and>
            steps cfg' = steps (snd at_round) \<and> payload (res cfg') = Str ''again'') \<and>
   (\<exists>m'. step req_round at_round = Some m' \<and> idx Before (snd at_round) \<le> idx Before (snd m')) \<and>
   converted req_round (Str ''again'') = Inr (Str ''again'') \<and>
   fst (run_job req_round (ReactionJob (ThenFinal Before (Str ''again'') 0) (Fulfilled Unit))
          (snd at_round)) =
     [AdapterBody 1 [Resolve (Str ''ok'')] Plain, DoRequestTail 1 0]"
proof -
  have h: "fst at_round = [HookBody 1 [Call CRetry (Str ''again'')], ResolveWith 3 4,
                   AdapterBody 0 [] Plain, DoRequestTail 0 2]"
    "length (hooks_before req_round) = 1" "calls (snd at_round) \<noteq> []"
    "s_chain (steps (snd at_round) ! 1) = Fail"
    by (code_simp)+
  have "nsteps 5 req_round (apicase req_round) \<noteq> None" by code_simp
  then have n5: "nsteps 5 req_round (apicase req_round) = Some at_round"
    by (auto simp: at_round_def)
  have r: "reachable req_round at_round"
    unfolding reachable_def using n5 reaches.start by (rule reaches_nsteps)
  then have r': "reaches (\<lambda>i. True) req_round (fst at_round, snd at_round)"
    by (simp add: reachable_def)
  have "\<exists>m'. step req_round at_round = Some m'"
    using h(1) by (rule step_exists)
  then obtain m' where s: "step req_round at_round = Some m'" by blast
  note t = cursor_never_reset[of req_round at_round m' Before CallCancel "snd at_round"
      "\<lambda>i. True" "fst at_round" 1 "Str ''again''" "[]" "Str ''again''" 0 Unit "snd at_round"]
  have e: "length (hooks_before req_round) \<le> idx_before (snd at_round)"
    using t r' h(3) by blast
  have a: "idx Before (snd at_round) \<le> idx Before (snd m')" using t s by blast
  have b: "\<exists>cfg'. exec req_round (HookBody 1 [Call CRetry (Str ''again'')]) (snd at_round) =
              ([TryResolve 1 (Suc (length (promises (snd at_round)))), HookBody 1 []], cfg') \<and>
            steps cfg' = steps (snd at_round) \<and> payload (res cfg') = Str ''again''"
    using t e h(4) by blast
  have c: "converted req_round (Str ''again'') = Inr (Str ''again'')"
    by (simp add: converted_def req_round_def)
  have l: "length (calls (snd at_round)) = 1" by code_simp
  have q: "fst (run_job req_round (ReactionJob (ThenFinal Before (Str ''again'') 0) (Fulfilled Unit))
          (snd at_round)) =
     [AdapterBody 1 [Resolve (Str ''ok'')] Plain, DoRequestTail 1 0]"
    using t c l by (simp add: req_round_def)
  show ?thesis using r h e a b s c q by blast
qed

section \<open>A run of the before chain\<close>

lemma nsteps_add:
  "nsteps (a + b) req m = (case nsteps a req m of None \<Rightarrow> None | Some m' \<Rightarrow> nsteps b req m')"
  by (induction a arbitrary: m) (auto split: option.splits)

lemma nsteps_Suc_end:
  "nsteps n req m = Some m' \<Longrightarrow> step req m' = Some m'' \<Longrightarrow> nsteps (Suc n) req m = Some m''"
  using nsteps_add[of n 1 req m] by simp

lemma exec_next:
  "exec req (HookBody s (Call CNext v # rest)) cfg =
     (fst (snd (withPayload req (s_chain (steps cfg ! s)) v
                  (update (s_chain (steps cfg ! s)) v (incr_idx (s_chain (steps cfg ! s)) cfg)))) @
        [TryResolve s (fst (withPayload req (s_chain (steps cfg ! s)) v
                  (update (s_chain (steps cfg ! s)) v (incr_idx (s_chain (steps cfg ! s)) cfg)))),
         HookBody s rest],
      snd (snd (withPayload req (s_chain (steps cfg ! s)) v
                  (update (s_chain (steps cfg ! s)) v (incr_idx (s_chain (steps cfg ! s)) cfg)))))"
  by (cases "s_chain (steps cfg ! s)")
     (simp_all add: has_cap_def invoke_def ctx_next_def split_def Let_def)

lemma exec_inert:
  "exec req (TryResolve s p) cfg = ([], tryResolve req s p cfg)"
  "exec req (HookBody s []) cfg = ([], cfg)"
  by simp_all

lemma payload_tryResolve [simp]: "res (tryResolve req s p cfg) = res cfg"
  by simp

lemma microtasks_resolvePromise_Thenable:
  "set (microtasks cfg) \<subseteq> set (microtasks (resolvePromise p (Thenable q) cfg))"
  by (auto simp: resolvePromise_def enqueue_def lock_def)

lemma microtasks_tryResolve: "set (microtasks cfg) \<subseteq> set (microtasks (tryResolve req s p cfg))"
  by (auto simp: tryResolve_def Let_def resolvePromise_def enqueue_def lock_def)

text \<open>
  From any state, a run of the before chain whose hooks all continue at once comes back
  to the caller after finitely many steps: one \<^verbatim>\<open>change:payload\<close> for each remaining
  hook and one for the terminal step, the adapter not called yet, \<^verbatim>\<open>final\<close> deferred,
  and of the state only the payload changed.
\<close>

lemma list_all_drop: "list_all P xs \<Longrightarrow> list_all P (drop n xs)"
  by (auto simp: list_all_iff dest: in_set_dropD)

lemma before_run_from:
  "list_all continues_at_once (drop (idx_before cfg) (hooks_before req)) \<Longrightarrow>
   \<exists>n cfg' es w.
           nsteps n req (fst (snd (withPayload req Before v cfg)) @ K,
                         snd (snd (withPayload req Before v cfg))) = Some (K, cfg') \<and>
           bus cfg' = bus cfg @ es \<and> list_all is_ChangePayload es \<and>
           length es = Suc (length (hooks_before req) - idx_before cfg) \<and>
           length (hooks_before req) \<le> idx_before cfg' \<and> calls cfg' = calls cfg \<and>
           payload (res cfg') = w \<and>
           (list_all passes_on (drop (idx_before cfg) (hooks_before req)) \<longrightarrow> w = v) \<and>
           (\<exists>d. ReactionJob (ThenFinal Before w d) (Fulfilled Unit) \<in> set (microtasks cfg')) \<and>
           success (res cfg') = success (res cfg) \<and> pending (res cfg') = pending (res cfg) \<and>
           cancelled (res cfg') = cancelled (res cfg) \<and> result (res cfg') = result (res cfg)"
proof (induction "length (hooks_before req) - idx_before cfg" arbitrary: cfg v K)
  case 0
  then have t: "length (hooks req Before) \<le> idx Before cfg"
    by (simp add: hooks_def idx_def)
  have "nsteps 0 req (fst (snd (withPayload req Before v cfg)) @ K,
                         snd (snd (withPayload req Before v cfg))) =
        Some (K, defer_final Before v (update Before v cfg))"
    by (simp add: withPayload_terminal[OF t])
  moreover have "bus (defer_final Before v (update Before v cfg)) = bus cfg @ [ChangePayload (payload (res cfg)) v]"
    by (simp add: update_def emit_def)
  moreover have "ReactionJob (ThenFinal Before v (Suc (length (promises cfg)))) (Fulfilled Unit)
      \<in> set (microtasks (defer_final Before v (update Before v cfg)))"
    by (simp add: defer_final_def enqueue_def)
  moreover have "res (defer_final Before v (update Before v cfg)) = (res cfg)\<lparr>payload := v\<rparr>"
    by (simp add: update_def emit_def)
  ultimately show ?case using 0
    apply (intro exI[of _ 0] exI[of _ "defer_final Before v (update Before v cfg)"]
        exI[of _ "[ChangePayload (payload (res cfg)) v]"] exI[of _ v])
    apply (simp add: is_ChangePayload_def)
    apply blast
    done
next
  case (Suc k)
  let ?N = "length (hooks_before req)"
  have lt: "idx Before cfg < length (hooks req Before)"
    using Suc.hyps(2) by (simp add: hooks_def idx_def)
  let ?h = "hooks_before req ! idx_before cfg"
  have dr: "drop (idx_before cfg) (hooks_before req) = ?h # drop (Suc (idx_before cfg)) (hooks_before req)"
    using Suc.hyps(2) by (simp add: Cons_nth_drop_Suc)
  have cao: "continues_at_once ?h" using Suc.prems dr by simp
  let ?ctx = "hook_ctx_of req Before v cfg"
  obtain v' where hv: "?h ?ctx = [Call CNext v']"
    using cao by (auto simp: continues_at_once_def)
  have pv: "list_all passes_on (drop (idx_before cfg) (hooks_before req)) \<Longrightarrow> v' = v"
  proof -
    assume "list_all passes_on (drop (idx_before cfg) (hooks_before req))"
    then have "passes_on ?h" using dr by simp
    then have "?h ?ctx = [Call CNext (ctx_payload ?ctx)]" by (simp add: passes_on_def)
    then show "v' = v" using hv by (simp add: hook_ctx_of_def createContext_def)
  qed
  let ?s = "length (steps cfg)"
  let ?c1 = "open_step Before cfg"
  have W: "withPayload req Before v cfg = (length (promises cfg), [HookBody ?s [Call CNext v']], ?c1)"
    using withPayload_hook[OF lt, of v] hv by (simp add: hooks_def idx_def)
  have sc: "s_chain (steps ?c1 ! ?s) = Before" by (simp add: open_step_def)
  let ?c3 = "update Before v' (incr_idx Before ?c1)"
  let ?W' = "withPayload req Before v' ?c3"
  let ?K' = "[TryResolve ?s (fst ?W'), HookBody ?s []] @ K"
  have s1: "step req ([HookBody ?s [Call CNext v']] @ K, ?c1) =
              Some (fst (snd ?W') @ ?K', snd (snd ?W'))"
    by (simp add: step_Cons exec_next sc del: exec.simps)
  have i3: "idx_before ?c3 = Suc (idx_before cfg)"
    by (simp add: incr_idx_def open_step_def)
  have k: "k = ?N - idx_before ?c3" using Suc.hyps(2) i3 by simp
  have imm3: "list_all continues_at_once (drop (idx_before ?c3) (hooks_before req))"
    using Suc.prems dr i3 by simp
  from Suc.hyps(1)[OF k imm3, of v' ?K']
  obtain n cfg4 es w where
    n: "nsteps n req (fst (snd ?W') @ ?K', snd (snd ?W')) = Some (?K', cfg4)"
    and b: "bus cfg4 = bus ?c3 @ es" and a: "list_all is_ChangePayload es"
    and l: "length es = Suc (?N - idx_before ?c3)"
    and i: "?N \<le> idx_before cfg4" and c: "calls cfg4 = calls ?c3"
    and p: "payload (res cfg4) = w"
    and pw: "list_all passes_on (drop (idx_before ?c3) (hooks_before req)) \<longrightarrow> w = v'"
    and j: "\<exists>d. ReactionJob (ThenFinal Before w d) (Fulfilled Unit) \<in> set (microtasks cfg4)"
    and r: "success (res cfg4) = success (res ?c3)" "pending (res cfg4) = pending (res ?c3)"
       "cancelled (res cfg4) = cancelled (res ?c3)" "result (res cfg4) = result (res ?c3)"
    by blast
  let ?c5 = "tryResolve req ?s (fst ?W') cfg4"
  have s2: "nsteps 2 req (?K', cfg4) = Some (K, ?c5)"
    by (simp add: numeral_2_eq_2 step_Cons del: exec.simps) simp
  have total: "nsteps (Suc n + 2) req ([HookBody ?s [Call CNext v']] @ K, ?c1) = Some (K, ?c5)"
    using s1 n s2 nsteps_add[of n 2 req "(fst (snd ?W') @ ?K', snd (snd ?W'))"] by simp
  have b3: "bus ?c3 = bus cfg @ [ChangePayload (payload (res cfg)) v']"
    by (simp add: update_def emit_def incr_idx_def open_step_def)
  have r3: "success (res ?c3) = success (res cfg)" "pending (res ?c3) = pending (res cfg)"
     "cancelled (res ?c3) = cancelled (res cfg)" "result (res ?c3) = result (res cfg)"
    by (simp_all add: update_def emit_def incr_idx_def open_step_def)
  have j5: "\<exists>d. ReactionJob (ThenFinal Before w d) (Fulfilled Unit) \<in> set (microtasks ?c5)"
    using j microtasks_tryResolve[of cfg4 req ?s "fst ?W'"] by blast
  show ?case
    apply (intro exI[of _ "Suc n + 2"] exI[of _ ?c5] exI[of _ "ChangePayload (payload (res cfg)) v' # es"]
        exI[of _ w])
    using total W b b3 a l i c p pw pv j5 r r3 i3 Suc.hyps(2) dr
    by (simp add: is_ChangePayload_def open_step_def incr_idx_def)
qed

lemma before_run:
  assumes imm: "list_all continues_at_once (hooks_before req)"
  shows "\<exists>n cfg' es w.
           nsteps n req (fst (snd (withPayload req Before v cfg)) @ K,
                         snd (snd (withPayload req Before v cfg))) = Some (K, cfg') \<and>
           bus cfg' = bus cfg @ es \<and> list_all is_ChangePayload es \<and>
           length es = Suc (length (hooks_before req) - idx_before cfg) \<and>
           length (hooks_before req) \<le> idx_before cfg' \<and> calls cfg' = calls cfg \<and>
           payload (res cfg') = w \<and>
           (list_all passes_on (hooks_before req) \<longrightarrow> w = v) \<and>
           (\<exists>d. ReactionJob (ThenFinal Before w d) (Fulfilled Unit) \<in> set (microtasks cfg')) \<and>
           success (res cfg') = success (res cfg) \<and> pending (res cfg') = pending (res cfg) \<and>
           cancelled (res cfg') = cancelled (res cfg) \<and> result (res cfg') = result (res cfg)"
  using before_run_from[where cfg = cfg and v = v and K = K, OF list_all_drop[OF imm]]
    list_all_drop[of passes_on "hooks_before req" "idx_before cfg"]
  by blast

lemma apicase_eq:
  "apicase req = (fst (snd (withPayload req Before (req_payload req) (init req))) @ [],
                  snd (snd (withPayload req Before (req_payload req) (init req))))"
  by (simp add: apicase_def split_def)

lemma not_terminal_ChangePayload: "is_ChangePayload e \<Longrightarrow> \<not> terminal_event e"
  by (cases e) (simp_all add: is_ChangePayload_def terminal_event_def)

text \<open>
  C5, as the code has it. When the before chain holds N hooks that each call \<^verbatim>\<open>next\<close>
  at once, the synchronous run that \<^verbatim>\<open>apicase\<close> starts ends after finitely many steps
  with exactly N + 1 events on the bus, all of them \<^verbatim>\<open>change:payload\<close> (one for each
  \<^verbatim>\<open>next\<close> and one more from the terminal step of \<^verbatim>\<open>withPayload\<close>), no terminal event
  among them, and the adapter not called yet.
\<close>

theorem before_chain_events:
  assumes "list_all continues_at_once (hooks_before req)"
  shows "\<exists>n cfg. nsteps n req (apicase req) = Some ([], cfg) \<and>
           length (bus cfg) = Suc (length (hooks_before req)) \<and>
           list_all is_ChangePayload (bus cfg) \<and>
           \<not> list_ex terminal_event (bus cfg) \<and> calls cfg = []"
proof -
  from before_run[OF assms, of "req_payload req" "init req" "[]"]
  obtain n cfg es where
    n: "nsteps n req (apicase req) = Some ([], cfg)"
    and b: "bus cfg = bus (init req) @ es" and a: "list_all is_ChangePayload es"
    and l: "length es = Suc (length (hooks_before req) - idx_before (init req))"
    and c: "calls cfg = calls (init req)"
    unfolding apicase_eq by blast
  have "\<not> list_ex terminal_event es"
    using a not_terminal_ChangePayload by (auto simp: list_all_iff list_ex_iff)
  then show ?thesis using n b a l c by (auto simp: init_def)
qed

theorem before_chain_events_witness:
  "list_all continues_at_once (hooks_before req_one) \<and>
   (\<exists>n cfg. nsteps n req_one (apicase req_one) = Some ([], cfg) \<and>
      length (bus cfg) = 2 \<and> list_all is_ChangePayload (bus cfg) \<and> calls cfg = [])"
proof -
  have h: "list_all continues_at_once (hooks_before req_one)"
    by (simp add: req_one_def continues_at_once_def)
  have l: "length (hooks_before req_one) = 1" by (simp add: req_one_def)
  from before_chain_events[OF h] obtain n cfg where
    n: "nsteps n req_one (apicase req_one) = Some ([], cfg)"
    and b: "length (bus cfg) = Suc (length (hooks_before req_one))"
    and a: "list_all is_ChangePayload (bus cfg)" and c: "calls cfg = []"
    by blast
  have "length (bus cfg) = 2" using b l by simp
  then show ?thesis using h n a c by blast
qed

text \<open>
  The claim as stated (exactly N events) fails: one hook gives two events, no hook gives
  one.
\<close>

theorem change_payload_count_counterexample:
  "map_option (\<lambda>c. (length (filter is_ChangePayload (bus c)), length (hooks_before req_one)))
     (run 40 req_one (apicase req_one)) = Some (2, 1) \<and>
   map_option (\<lambda>c. (length (filter is_ChangePayload (bus c)), length (hooks_before (reqA Null False))))
     (run 40 (reqA Null False) (apicase (reqA Null False))) = Some (1, 0)"
  by code_simp

section \<open>The payload of terminal snapshots\<close>

lemma last_payload_snoc:
  "last_payload cur (es @ [e]) =
     (case e of ChangePayload a b \<Rightarrow> b | _ \<Rightarrow> last_payload cur es)"
  by (induction cur es rule: last_payload.induct) (auto split: event.splits)

lemma snapshots_ok_snoc:
  "snapshots_ok cur (es @ [e]) =
     (snapshots_ok cur es \<and> (case carries e of Some p \<Rightarrow> p = last_payload cur es | None \<Rightarrow> True))"
  by (induction cur es rule: snapshots_ok.induct) (auto simp: carries_def split: event.splits)

lemma pinv_same: "res cfg' = res cfg \<Longrightarrow> bus cfg' = bus cfg \<Longrightarrow> payload_inv cfg' = payload_inv cfg"
  by (simp add: payload_inv_def)

lemma pinv_emit:
  "payload_inv cfg \<Longrightarrow> \<not> is_ChangePayload e \<Longrightarrow>
   (case carries e of Some p \<Rightarrow> p = payload (res cfg) | None \<Rightarrow> True) \<Longrightarrow>
   payload_inv (emit e cfg)"
  by (cases e) (auto simp: payload_inv_def emit_def last_payload_snoc snapshots_ok_snoc
      is_ChangePayload_def carries_def)

lemma pinv_update: "payload_inv cfg \<Longrightarrow> payload_inv (update c v cfg)"
  by (cases c) (auto simp: payload_inv_def update_def emit_def last_payload_snoc snapshots_ok_snoc
      carries_def)


lemma pinv_withPayload: "payload_inv cfg \<Longrightarrow> payload_inv (snd (snd (withPayload req c v cfg)))"
  by (cases "idx c cfg < length (hooks req c)")
     (simp_all add: withPayload_hook withPayload_terminal pinv_update
        pinv_same[of "defer_final c v (update c v cfg)" "update c v cfg"]
        pinv_same[of "open_step c cfg" cfg])

lemma pinv_tryResolve [simp]: "payload_inv (tryResolve req s p cfg) = payload_inv cfg"
  by (simp add: payload_inv_def)

lemma pinv_fields [simp]:
  "payload_inv (incr_idx c cfg) = payload_inv cfg"
  "payload_inv (rejectPromise p e cfg) = payload_inv cfg"
  "payload_inv (resolvePromise p x cfg) = payload_inv cfg"
  "payload_inv (settle p st cfg) = payload_inv cfg"
  "payload_inv (promise_then q r cfg) = payload_inv cfg"
  "payload_inv (adapter_fault cid e cfg) = payload_inv cfg"
  "payload_inv (doRequest_tail cid d cfg) = payload_inv cfg"
  "payload_inv (snd (doRequest req v d cfg)) = payload_inv cfg"
  "payload_inv (cancel cfg) = payload_inv cfg"
  "payload_inv (setCancelCallback cb cfg) = payload_inv cfg"
  "payload_inv (cfg\<lparr>calls := cs\<rparr>) = payload_inv cfg"
  "payload_inv (cfg\<lparr>microtasks := js\<rparr>) = payload_inv cfg"
  by (simp_all add: payload_inv_def setCancelCallback_def)


lemma pinv_adapter_call: "payload_inv cfg \<Longrightarrow> payload_inv (snd (adapter_call req cid a cfg))"
  by (cases a)
     (simp_all add: resolveAdapter_def rejectAdapter_def split_def Let_def pinv_withPayload
        pinv_emit is_ChangePayload_def carries_def)









section \<open>Where a delivered snapshot comes from\<close>

lemma delivered_ok_simps [simp]:
  "delivered_ok es None" "delivered_ok es (Some st) = finished es st"
  by (simp_all add: delivered_ok_def)

lemma finished_simps [simp]: "finished es (Fulfilled Unit)" "finished es (Rejected e)"
  by (simp_all add: finished_def)

lemma finished_more: "finished es st \<Longrightarrow> finished (es @ es') st"
  by (auto simp: finished_def split: option.splits)

lemma delivered_more: "delivered_ok es v \<Longrightarrow> delivered_ok (es @ es') v"
  by (cases v) (simp_all add: finished_more)

lemma deliv_keep:
  "deliv_inv cfg \<Longrightarrow> promises cfg' = promises cfg \<Longrightarrow> microtasks cfg' = microtasks cfg \<Longrightarrow>
   bus cfg' = bus cfg @ es \<Longrightarrow> deliv_inv cfg'"
  by (auto simp: deliv_inv_def list_all_iff delivered_more)

lemma deliv_same:
  "deliv_inv cfg \<Longrightarrow> promises cfg' = promises cfg \<Longrightarrow> microtasks cfg' = microtasks cfg \<Longrightarrow>
   bus cfg' = bus cfg \<Longrightarrow> deliv_inv cfg'"
  using deliv_keep[of cfg cfg' "[]"] by simp

lemma deliv_at: "deliv_inv cfg \<Longrightarrow> delivered_ok (bus cfg) (settled (promise_at cfg p))"
  by (simp add: deliv_inv_def promise_at_def list_all_length pending_promise_def)


lemma deliv_enqueue:
  "deliv_inv cfg \<Longrightarrow> delivered_ok (bus cfg) (job_value j) \<Longrightarrow> deliv_inv (enqueue j cfg)"
  by (simp add: deliv_inv_def)


lemma fresh_delivered [simp]:
  "delivered_ok es (settled (pending_promise k))" "delivered_ok es (settled (fulfilled_promise k))"
  "delivered_ok es (settled (locked_promise k))"
  by (simp_all add: pending_promise_def fulfilled_promise_def locked_promise_def)


lemma deliv_lock: "deliv_inv cfg \<Longrightarrow> deliv_inv (lock p cfg)"
proof -
  assume a: "deliv_inv cfg"
  have "delivered_ok (bus cfg) (settled ((promise_at cfg p)\<lparr>alreadyResolved := True\<rparr>))"
    using deliv_at[OF a, of p] by simp
  then have "list_all (\<lambda>p. delivered_ok (bus cfg) (settled p))
          ((promises cfg)[p := (promise_at cfg p)\<lparr>alreadyResolved := True\<rparr>])"
    using a by (simp add: deliv_inv_def)
  then show ?thesis using a by (simp add: deliv_inv_def lock_def)
qed

lemma deliv_resolve [simp]: "deliv_inv cfg \<Longrightarrow> deliv_inv (resolvePromise p (Thenable q) cfg)"
  by (simp add: resolvePromise_def deliv_lock deliv_enqueue)





lemma deliv_fields [simp]:
  "deliv_inv (incr_idx c cfg) = deliv_inv cfg"
  "deliv_inv (cfg\<lparr>steps := ss\<rparr>) = deliv_inv cfg"
  "deliv_inv (cfg\<lparr>console := k\<rparr>) = deliv_inv cfg"
  "deliv_inv (cfg\<lparr>invoked := i\<rparr>) = deliv_inv cfg"
  "deliv_inv (cfg\<lparr>faults := f\<rparr>) = deliv_inv cfg"
  "deliv_inv (cfg\<lparr>calls := cs\<rparr>) = deliv_inv cfg"
  "deliv_inv (setCancelCallback cb cfg) = deliv_inv cfg"
  by (cases c) (simp_all add: deliv_inv_def incr_idx_def setCancelCallback_def)

























section \<open>Retry\<close>






section \<open>Settling a step twice\<close>

lemma grow_refl [simp]: "promises_grow cfg cfg"
  by (simp add: promises_grow_def)

lemma grow_trans: "promises_grow a b \<Longrightarrow> promises_grow b c \<Longrightarrow> promises_grow a c"
  by (auto simp: promises_grow_def)

lemma grow_same: "promises cfg' = promises cfg \<Longrightarrow> promises_grow cfg cfg'"
  by (simp add: promises_grow_def promise_at_def)

lemma steps_inv_grow:
  "steps_inv cfg \<Longrightarrow> promises_grow cfg cfg' \<Longrightarrow> steps cfg' = steps cfg \<Longrightarrow> steps_inv cfg'"
  by (auto simp: steps_inv_def step_ok_def promises_grow_def list_all_iff)

lemma unlocked_default: "alreadyResolved (promise_at cfg q) \<Longrightarrow> q < length (promises cfg)"
  by (auto simp: promise_at_def pending_promise_def split: if_splits)

lemma promise_at_enqueue [simp]: "promise_at (enqueue j cfg) q = promise_at cfg q"
  by (simp add: promise_at_def)

lemma promise_at_new_promise:
  "promise_at (snd (new_promise pr cfg)) q =
     (if q = length (promises cfg) then pr else promise_at cfg q)"
  by (auto simp: promise_at_def new_promise_def nth_append)

lemma promise_at_settle:
  "promise_at (settle p st cfg) q =
     (if q = p \<and> p < length (promises cfg)
      then (promise_at cfg p)\<lparr>settled := Some st, reactions := []\<rparr> else promise_at cfg q)"
  by (auto simp: promise_at_def settle_def Let_def)

lemma promise_at_lock:
  "promise_at (lock p cfg) q =
     (if q = p \<and> p < length (promises cfg)
      then (promise_at cfg p)\<lparr>alreadyResolved := True\<rparr> else promise_at cfg q)"
  by (auto simp: promise_at_def lock_def)

lemma promise_at_promise_then:
  "promise_at (promise_then q r cfg) p =
     (if p = q \<and> q < length (promises cfg) \<and> settled (promise_at cfg q) = None
      then (promise_at cfg q)\<lparr>reactions := reactions (promise_at cfg q) @ [r]\<rparr>
      else promise_at cfg p)"
  by (auto simp: promise_at_def promise_then_def enqueue_def split: option.splits)

lemma length_promises [simp]:
  "length (promises (settle p st cfg)) = length (promises cfg)"
  "length (promises (lock p cfg)) = length (promises cfg)"
  "length (promises (resolvePromise p x cfg)) = length (promises cfg)"
  "length (promises (rejectPromise p e cfg)) = length (promises cfg)"
  "length (promises (promise_then q r cfg)) = length (promises cfg)"
  by (simp_all add: settle_def lock_def resolvePromise_def rejectPromise_def promise_then_def
      enqueue_def Let_def split: resolution.splits option.splits)

lemma grow_new_promise: "promises_grow cfg (snd (new_promise pr cfg))"
  by (auto simp: promises_grow_def promise_at_new_promise dest: unlocked_default)

lemma grow_settle: "promises_grow cfg (settle p st cfg)"
  by (simp add: promises_grow_def promise_at_settle)

lemma grow_lock: "promises_grow cfg (lock p cfg)"
  by (simp add: promises_grow_def promise_at_lock)

lemma grow_enqueue: "promises_grow cfg (enqueue j cfg)"
  by (simp add: grow_same)

lemma grow_resolvePromise: "promises_grow cfg (resolvePromise p x cfg)"
  using grow_trans[OF grow_lock grow_settle] grow_trans[OF grow_lock grow_enqueue]
  by (auto simp: resolvePromise_def split: resolution.splits)

lemma grow_rejectPromise: "promises_grow cfg (rejectPromise p e cfg)"
  using grow_trans[OF grow_lock grow_settle]
  by (auto simp: rejectPromise_def)

lemma grow_promise_then: "promises_grow cfg (promise_then q r cfg)"
  by (simp add: promises_grow_def promise_at_promise_then)

lemma locked_after_resolve:
  "p < length (promises cfg) \<Longrightarrow> alreadyResolved (promise_at (resolvePromise p x cfg) p)"
  by (simp add: resolvePromise_def promise_at_lock promise_at_settle split: resolution.splits)

lemma step_ok_grow: "step_ok cfg st \<Longrightarrow> promises_grow cfg cfg' \<Longrightarrow> step_ok cfg' st"
  by (auto simp: step_ok_def promises_grow_def)

lemma step_ok_prims [simp]:
  "step_ok cfg st \<Longrightarrow> step_ok (snd (new_promise pr cfg)) st"
  "step_ok cfg st \<Longrightarrow> step_ok (settle p s' cfg) st"
  "step_ok cfg st \<Longrightarrow> step_ok (lock p cfg) st"
  "step_ok cfg st \<Longrightarrow> step_ok (resolvePromise p x cfg) st"
  "step_ok cfg st \<Longrightarrow> step_ok (rejectPromise p e cfg) st"
  "step_ok cfg st \<Longrightarrow> step_ok (promise_then q r cfg) st"
  by (erule step_ok_grow, rule grow_new_promise grow_settle grow_lock grow_resolvePromise
      grow_rejectPromise grow_promise_then)+

lemma step_ok_same [simp]:
  "step_ok (emit ev cfg) = step_ok cfg"
  "step_ok (enqueue j cfg) = step_ok cfg"
  "step_ok (update c v cfg) = step_ok cfg"
  "step_ok (incr_idx c cfg) = step_ok cfg"
  "step_ok (setState diff cfg) = step_ok cfg"
  "step_ok (setCancelCallback cb cfg) = step_ok cfg"
  "step_ok (cfg\<lparr>steps := a1\<rparr>) = step_ok cfg"
  "step_ok (cfg\<lparr>calls := a2\<rparr>) = step_ok cfg"
  "step_ok (cfg\<lparr>console := a3\<rparr>) = step_ok cfg"
  "step_ok (cfg\<lparr>invoked := a4\<rparr>) = step_ok cfg"
  "step_ok (cfg\<lparr>faults := a5\<rparr>) = step_ok cfg"
  "step_ok (cfg\<lparr>microtasks := a6\<rparr>) = step_ok cfg"
  "step_ok (cfg\<lparr>cancelCallback := a7\<rparr>) = step_ok cfg"
  by (rule ext, simp add: step_ok_def promise_at_def setCancelCallback_def)+

lemma promise_at_old:
  "q < length (promises cfg) \<Longrightarrow> promise_at (defer_final c v cfg) q = promise_at cfg q"
  "q < length (promises cfg) \<Longrightarrow> promise_at (open_step c cfg) q = promise_at cfg q"
  "length (promises (defer_final c v cfg)) = length (promises cfg) + 2"
  "length (promises (open_step c cfg)) = length (promises cfg) + 1"
  by (simp_all add: defer_final_def open_step_def promise_at_def nth_append enqueue_def)

lemma step_ok_defer_final [simp]: "step_ok cfg st \<Longrightarrow> step_ok (defer_final c v cfg) st"
  by (simp add: step_ok_def promise_at_old)

lemma step_ok_open_step [simp]: "step_ok cfg st \<Longrightarrow> step_ok (open_step c cfg) st"
  by (simp add: step_ok_def promise_at_old)

lemma sinv_open_step: "steps_inv cfg \<Longrightarrow> steps_inv (open_step c cfg)"
proof -
  assume a: "steps_inv cfg"
  have "step_ok (open_step c cfg) \<lparr>s_chain = c, s_promise = length (promises cfg), isResolved = False\<rparr>"
    by (simp add: step_ok_def open_step_def)
  moreover have "list_all (step_ok (open_step c cfg)) (steps cfg)"
    using a by (simp add: steps_inv_def list_all_iff)
  ultimately show ?thesis by (simp add: steps_inv_def open_step_def)
qed

lemma sinv_keep:
  "steps_inv cfg \<Longrightarrow> steps cfg' = steps cfg \<Longrightarrow> (\<And>st. step_ok cfg st \<Longrightarrow> step_ok cfg' st) \<Longrightarrow>
   steps_inv cfg'"
  by (simp add: steps_inv_def list_all_iff)

lemma sinv_withPayload: "steps_inv cfg \<Longrightarrow> steps_inv (snd (snd (withPayload req c v cfg)))"
  by (cases "idx c cfg < length (hooks req c)")
     (auto simp: withPayload_hook withPayload_terminal sinv_open_step
        intro: sinv_keep[of cfg "defer_final c v (update c v cfg)"])

lemma sinv_tryResolve: "steps_inv cfg \<Longrightarrow> steps_inv (tryResolve req s p cfg)"
proof -
  assume a: "steps_inv cfg"
  show ?thesis
  proof (cases "s < length (steps cfg)")
    case False
    then show ?thesis using a
      by (auto simp: tryResolve_def Let_def steps_inv_def list_all_iff list_update_beyond)
  next
    case True
    let ?st = "steps cfg ! s"
    have ok: "step_ok cfg ?st" using a True by (simp add: steps_inv_def list_all_length)
    then have lt: "s_promise ?st < length (promises cfg)" by (simp add: step_ok_def)
    let ?cfg1 = "cfg\<lparr>steps := (steps cfg)[s := ?st\<lparr>isResolved := True\<rparr>]\<rparr>"
    let ?cfg2 = "resolvePromise (s_promise ?st) (Thenable p) ?cfg1"
    have l2: "alreadyResolved (promise_at ?cfg2 (s_promise ?st))"
      using lt by (intro locked_after_resolve) simp
    have new: "step_ok ?cfg2 (?st\<lparr>isResolved := True\<rparr>)"
      using l2 lt by (simp add: step_ok_def)
    have old: "list_all (step_ok ?cfg2) (steps cfg)"
      using a by (simp add: steps_inv_def list_all_iff)
    have "steps_inv ?cfg2"
      using new old by (simp add: steps_inv_def)
    then show ?thesis using a by (simp add: tryResolve_def Let_def steps_inv_def)
  qed
qed

lemma sinv_same [simp]:
  "steps_inv (emit ev cfg) = steps_inv cfg"
  "steps_inv (enqueue j cfg) = steps_inv cfg"
  "steps_inv (update c v cfg) = steps_inv cfg"
  "steps_inv (incr_idx c cfg) = steps_inv cfg"
  "steps_inv (setState diff cfg) = steps_inv cfg"
  "steps_inv (setCancelCallback cb cfg) = steps_inv cfg"
  "steps_inv (cfg\<lparr>calls := a2\<rparr>) = steps_inv cfg"
  "steps_inv (cfg\<lparr>console := a3\<rparr>) = steps_inv cfg"
  "steps_inv (cfg\<lparr>invoked := a4\<rparr>) = steps_inv cfg"
  "steps_inv (cfg\<lparr>faults := a5\<rparr>) = steps_inv cfg"
  "steps_inv (cfg\<lparr>microtasks := a6\<rparr>) = steps_inv cfg"
  by (simp_all add: steps_inv_def setCancelCallback_def)

lemma sinv_prims [simp]:
  "steps_inv cfg \<Longrightarrow> steps_inv (snd (new_promise pr cfg))"
  "steps_inv cfg \<Longrightarrow> steps_inv (settle p s' cfg)"
  "steps_inv cfg \<Longrightarrow> steps_inv (resolvePromise p x cfg)"
  "steps_inv cfg \<Longrightarrow> steps_inv (rejectPromise p e cfg)"
  "steps_inv cfg \<Longrightarrow> steps_inv (promise_then q r cfg)"
  by (erule sinv_keep; simp)+

lemma sinv_invoke: "steps_inv cfg \<Longrightarrow> steps_inv (snd (invoke req s cap v cfg))"
  by (cases cap)
     (simp_all add: invoke_def ctx_next_def changeFlow_def split_def Let_def sinv_withPayload)

lemma sinv_doRequest: "steps_inv cfg \<Longrightarrow> steps_inv (snd (doRequest req v d cfg))"
  by (simp add: doRequest_def split_def Let_def split: sum.splits)

lemma sinv_doRequest_tail: "steps_inv cfg \<Longrightarrow> steps_inv (doRequest_tail cid d cfg)"
  by (simp add: doRequest_tail_def split_def Let_def)

lemma sinv_final: "steps_inv cfg \<Longrightarrow> steps_inv (snd (final req c v d cfg))"
  by (cases c) (simp_all add: final_def Let_def sinv_doRequest)

lemma sinv_adapter_fault: "steps_inv cfg \<Longrightarrow> steps_inv (adapter_fault cid e cfg)"
  by (simp add: adapter_fault_def Let_def)

lemma sinv_cancel_handler: "steps_inv cfg \<Longrightarrow> steps_inv (cancel_handler d cfg)"
  by (simp add: cancel_handler_def Let_def)

lemma sinv_cancel: "steps_inv cfg \<Longrightarrow> steps_inv (cancel cfg)"
  by (simp add: cancel_def Let_def split_def split: cb_behaviour.splits)

lemma sinv_run_job: "steps_inv cfg \<Longrightarrow> steps_inv (snd (run_job req j cfg))"
proof (cases j)
  case (ReactionJob r st)
  assume "steps_inv cfg"
  then show ?thesis using ReactionJob
    by (cases r; cases st) (simp_all add: sinv_final throwError_def sinv_cancel_handler)
qed simp_all

lemma sinv_exec: "steps_inv cfg \<Longrightarrow> steps_inv (snd (exec req c cfg))"
  by (induction req c cfg rule: exec.induct)
     (simp_all add: split_def Let_def sinv_invoke sinv_tryResolve sinv_adapter_fault
        resolveAdapter_def rejectAdapter_def sinv_withPayload sinv_doRequest_tail
        split: returned.splits)

lemma sinv_step: "steps_inv (snd m) \<Longrightarrow> step req m = Some m' \<Longrightarrow> steps_inv (snd m')"
proof (cases m)
  case (Pair stk cfg)
  assume a: "steps_inv (snd m)" and s: "step req m = Some m'"
  show ?thesis
  proof (cases stk)
    case Nil
    then show ?thesis using a s Pair sinv_run_job[of "cfg\<lparr>microtasks := tl (microtasks cfg)\<rparr>" req]
      by (auto split: list.splits)
  next
    case (Cons c cs)
    then show ?thesis using a s Pair sinv_exec[of cfg req c] by (auto simp: split_def Let_def)
  qed
qed

lemma sinv_feed: "steps_inv cfg \<Longrightarrow> steps_inv (snd (feed req i cfg))"
  by (cases i) (simp_all add: feed_def sinv_cancel sinv_adapter_fault)

lemma sinv_reaches: "reaches a req m \<Longrightarrow> steps_inv (snd m)"
proof (induction rule: reaches.induct)
  case start
  have "steps_inv (init req)" by (simp add: steps_inv_def init_def)
  then show ?case by (simp add: apicase_def split_def sinv_withPayload)
next
  case (internal m m')
  then show ?case using sinv_step by blast
next
  case (external cfg i)
  then show ?case using sinv_feed[of cfg req i] by simp
qed

lemma settled_is_final:
  "alreadyResolved (promise_at cfg q) \<Longrightarrow> resolvePromise q x cfg = cfg"
  "alreadyResolved (promise_at cfg q) \<Longrightarrow> rejectPromise q e cfg = cfg"
  by (simp_all add: resolvePromise_def rejectPromise_def)

lemma tryResolve_again:
  assumes "steps_inv cfg" and "s < length (steps cfg)" and "isResolved (steps cfg ! s)"
  shows "promises (tryResolve req s p cfg) = promises cfg \<and>
         microtasks (tryResolve req s p cfg) = microtasks cfg"
proof -
  have "step_ok cfg (steps cfg ! s)"
    using assms(1,2) by (simp add: steps_inv_def list_all_length)
  then have l: "alreadyResolved (promise_at cfg (s_promise (steps cfg ! s)))"
    using assms(3) by (simp add: step_ok_def)
  have "promise_at (cfg\<lparr>steps := xs\<rparr>) = promise_at cfg" for xs
    by (rule ext) (simp add: promise_at_def)
  then have "alreadyResolved (promise_at (cfg\<lparr>steps := xs\<rparr>) (s_promise (steps cfg ! s)))" for xs
    using l by simp
  then show ?thesis
    by (simp add: tryResolve_def Let_def settled_is_final)
qed

text \<open>
  C6, as the code has it. Outside production builds, \<^verbatim>\<open>tryResolve\<close> on a step that is
  already settled only writes the diagnostic. In any build, at every point of every
  lifecycle, it leaves the promises, the queue, the state, the bus and the cursors as
  they are: the first settlement stands. The same holds for a second \<^verbatim>\<open>resolve\<close> or
  \<^verbatim>\<open>reject\<close> of any promise, the adapter's included. But the capability has run before
  \<^verbatim>\<open>tryResolve\<close> is reached: \<^verbatim>\<open>next\<close> advances the cursor each time it is called.
\<close>

theorem second_settlement:
  "(isResolved (steps cfg ! s) \<and> \<not> production req \<longrightarrow>
      tryResolve req s p cfg =
        cfg\<lparr>console := console cfg @ [(s_chain (steps cfg ! s), idx (s_chain (steps cfg ! s)) cfg)]\<rparr>) \<and>
   (reaches a req (stk, cfg) \<and> s < length (steps cfg) \<and> isResolved (steps cfg ! s) \<longrightarrow>
      promises (tryResolve req s p cfg) = promises cfg \<and>
      microtasks (tryResolve req s p cfg) = microtasks cfg \<and>
      res (tryResolve req s p cfg) = res cfg \<and> bus (tryResolve req s p cfg) = bus cfg \<and>
      idx c (tryResolve req s p cfg) = idx c cfg) \<and>
   (alreadyResolved (promise_at cfg q) \<longrightarrow>
      resolvePromise q x cfg = cfg \<and> rejectPromise q e cfg = cfg) \<and>
   idx (s_chain (steps cfg ! s)) (snd (exec req (HookBody s (Call CNext v # rest)) cfg)) =
     Suc (idx (s_chain (steps cfg ! s)) cfg)"
proof -
  have a: "isResolved (steps cfg ! s) \<and> \<not> production req \<longrightarrow>
      tryResolve req s p cfg =
        cfg\<lparr>console := console cfg @ [(s_chain (steps cfg ! s), idx (s_chain (steps cfg ! s)) cfg)]\<rparr>"
    by (simp add: tryResolve_def Let_def)
  have b: "reaches a req (stk, cfg) \<and> s < length (steps cfg) \<and> isResolved (steps cfg ! s) \<longrightarrow>
      promises (tryResolve req s p cfg) = promises cfg \<and>
      microtasks (tryResolve req s p cfg) = microtasks cfg"
    using sinv_reaches[of a req "(stk, cfg)"] tryResolve_again[of cfg s req p] by auto
  have d: "idx (s_chain (steps cfg ! s)) (snd (exec req (HookBody s (Call CNext v # rest)) cfg)) =
     Suc (idx (s_chain (steps cfg ! s)) cfg)"
    by (simp add: exec_next idx_incr_idx del: exec.simps)
  show ?thesis using a b d settled_is_final(1)[of cfg q x] settled_is_final(2)[of cfg q e] by simp
qed

theorem second_settlement_witness:
  "reachable req_twice at_second \<and> fst at_second = [TryResolve 0 4, HookBody 0 []] \<and>
   isResolved (steps (snd at_second) ! 0) \<and> \<not> production req_twice \<and>
   console (tryResolve req_twice 0 4 (snd at_second)) = [(Before, 2)] \<and>
   promises (tryResolve req_twice 0 4 (snd at_second)) = promises (snd at_second) \<and>
   microtasks (tryResolve req_twice 0 4 (snd at_second)) = microtasks (snd at_second)"
proof -
  have st: "fst at_second = [TryResolve 0 4, HookBody 0 []]"
    and i: "isResolved (steps (snd at_second) ! 0)" and np: "\<not> production req_twice"
    and l: "0 < length (steps (snd at_second))"
    and c: "console (snd at_second) = []" "s_chain (steps (snd at_second) ! 0) = Before"
       "idx Before (snd at_second) = 2"
    by (code_simp)+
  have "nsteps 3 req_twice (apicase req_twice) \<noteq> None" by code_simp
  then have n: "nsteps 3 req_twice (apicase req_twice) = Some at_second"
    by (auto simp: at_second_def)
  have r: "reachable req_twice at_second"
    unfolding reachable_def using n reaches.start by (rule reaches_nsteps)
  have m: "(fst at_second, snd at_second) = at_second" by simp
  note t = second_settlement[of "snd at_second" 0 req_twice 4 "\<lambda>i. True" "fst at_second"]
  have a: "tryResolve req_twice 0 4 (snd at_second) =
             (snd at_second)\<lparr>console := console (snd at_second) @ [(Before, 2)]\<rparr>"
    using t i np c by simp
  have b: "promises (tryResolve req_twice 0 4 (snd at_second)) = promises (snd at_second) \<and>
           microtasks (tryResolve req_twice 0 4 (snd at_second)) = microtasks (snd at_second)"
    using t r i l unfolding reachable_def m by blast
  show ?thesis using r st i np b a c by simp
qed

text \<open>
  The claim as stated fails: a hook that calls \<^verbatim>\<open>next\<close> twice moves the cursor twice,
  emits the events of \<^verbatim>\<open>update\<close> again and has the adapter called a second time.
\<close>

theorem second_invocation_counterexample:
  "map_option (\<lambda>c. (idx_before c, length (calls c), length (bus c), console c))
     (run 80 req_one (apicase req_one)) = Some (1, 1, 5, []) \<and>
   map_option (\<lambda>c. (idx_before c, length (calls c), length (bus c), console c))
     (run 80 req_twice (apicase req_twice)) = Some (2, 2, 10, [(Before, 2)])"
  by code_simp

section \<open>The three routes to a terminal state\<close>




lemma cancel_route:
  assumes q: "microtasks cfg = []" and b: "behaviour (cancelCallback cfg) = Returns"
  shows "nsteps 1 req (feed req CallCancel cfg) =
           Some ([], cancel_handler (Suc (length (promises cfg))) ((cancel cfg)\<lparr>microtasks := []\<rparr>))"
  using cancel_returns[OF b] q by (simp add: feed_def)







section \<open>Where the error of a rejection comes from\<close>

lemma grows_refl [simp]: "grows cfg cfg"
  by (simp add: grows_def)

lemma grows_trans:
  assumes "grows a b" and "grows b c"
  shows "grows a c"
proof -
  have p: "origin (promises c ! p) = origin (promises a ! p)" if "p < length (promises a)" for p
  proof -
    have "p < length (promises b)" using that assms(1) by (simp add: grows_def)
    then have "origin (promises c ! p) = origin (promises b ! p)" using assms(2) by (simp add: grows_def)
    then show ?thesis using that assms(1) by (simp add: grows_def)
  qed
  have s: "s_chain (steps c ! s) = s_chain (steps a ! s)" if "s < length (steps a)" for s
  proof -
    have "s < length (steps b)" using that assms(1) by (simp add: grows_def)
    then have "s_chain (steps c ! s) = s_chain (steps b ! s)" using assms(2) by (simp add: grows_def)
    then show ?thesis using that assms(1) by (simp add: grows_def)
  qed
  have "set (faults a) \<subseteq> set (faults c)" "set (bus a) \<subseteq> set (bus c)"
    "length (promises a) \<le> length (promises c)" "length (steps a) \<le> length (steps c)"
    "length (calls a) \<le> length (calls c)"
    using assms by (auto simp: grows_def)
  then show ?thesis using p s by (simp add: grows_def)
qed

lemma level_le2 [simp]: "level k \<le> 2"
  by (cases k) (simp_all add: level_def)
















lemma promise_ok_locked [simp]: "promise_ok cfg (pr\<lparr>alreadyResolved := b\<rparr>) = promise_ok cfg pr"
  by (simp add: promise_ok_def)

lemma promise_ok_fresh [simp]:
  "promise_ok cfg (pending_promise k)" "promise_ok cfg (fulfilled_promise k)"
  "promise_ok cfg (locked_promise k)"
  by (simp_all add: promise_ok_def pending_promise_def fulfilled_promise_def locked_promise_def)


lemma grows_enqueue [simp]: "grows cfg (enqueue j cfg)"
  by (auto simp: grows_def enqueue_def)


lemma grows_settle [simp]: "grows cfg (settle p st cfg)"
  by (auto simp: grows_def settle_def Let_def promise_at_def nth_list_update)

lemma grows_lock [simp]: "grows cfg (lock p cfg)"
  by (auto simp: grows_def lock_def promise_at_def nth_list_update)


lemma grows_resolve [simp]: "grows cfg (resolvePromise p x cfg)"
proof (cases x)
  case (Value v)
  then show ?thesis
    using grows_trans[OF grows_lock[of cfg p] grows_settle[of "lock p cfg" p "Fulfilled v"]]
    by (simp add: resolvePromise_def)
next
  case (Thenable q)
  then show ?thesis
    using grows_trans[OF grows_lock[of cfg p] grows_enqueue[of "lock p cfg" "ResolveThenableJob p q"]]
    by (simp add: resolvePromise_def)
qed


lemma lvl_prim [simp]:
  "lvl (emit ev cfg) q = lvl cfg q"
  "lvl (enqueue j cfg) q = lvl cfg q"
  "lvl (settle p st cfg) q = lvl cfg q"
  "lvl (lock p cfg) q = lvl cfg q"
  "lvl (promise_then p r cfg) q = lvl cfg q"
  by (auto simp: lvl_def promise_at_settle promise_at_lock promise_at_promise_then)

lemma guarantee_prim [simp]:
  "guarantee n (enqueue j cfg) e = guarantee n cfg e"
  "guarantee n (settle p st cfg) e = guarantee n cfg e"
  "guarantee n (lock p cfg) e = guarantee n cfg e"
  "guarantee n (promise_then p r cfg) e = guarantee n cfg e"
  "guarantee n (snd (new_promise pr cfg)) e = guarantee n cfg e"
  by (simp_all add: guarantee_def enqueue_def settle_def lock_def promise_then_def new_promise_def
      Let_def split: option.splits)


























lemma yields_only: "rej_core cfg' \<Longrightarrow> grows cfg cfg' \<Longrightarrow> yields cfg ([], cfg')"
  by (simp add: yields_def)










lemma grows_steps_update:
  "grows cfg (cfg\<lparr>steps := (steps cfg)[s := (steps cfg ! s)\<lparr>isResolved := True\<rparr>]\<rparr>)"
proof -
  have "s_chain ((steps cfg)[s := (steps cfg ! s)\<lparr>isResolved := True\<rparr>] ! t) = s_chain (steps cfg ! t)"
    if "t < length (steps cfg)" for t
    using that by (cases "t = s") simp_all
  then show ?thesis by (simp add: grows_def)
qed

lemma grows_tryResolve [simp]: "grows cfg (tryResolve req s p cfg)"
  using grows_trans[OF grows_steps_update[of cfg s] grows_resolve]
  by (simp add: tryResolve_def Let_def) (simp add: grows_def)















lemma lvl_faults [simp]: "lvl (cfg\<lparr>faults := f\<rparr>) p = lvl cfg p"
  by (simp add: lvl_def promise_at_def)










section \<open>The fatal path\<close>





lemma promise_at_faults [simp]: "promise_at (cfg\<lparr>faults := f\<rparr>) p = promise_at cfg p"
  by (simp add: promise_at_def)






text \<open>
  Not a fault: the thenable rejects after \<^verbatim>\<open>resolve\<close>. The completion promise fulfils and
  no \<^verbatim>\<open>error\<close> event is emitted.
\<close>

lemma late_rejection_is_swallowed:
  "map_option (\<lambda>c. (outcome (req_of [Resolve v] Catchable m b) c, faults c, filter (\<lambda>ev. ev = ErrorEv e) (bus c)))
     (drive 20 (req_of [Resolve v] Catchable m b) [ThenableRejects 0 e] (apicase (req_of [Resolve v] Catchable m b))) =
   Some (Some (Fulfilled (Snapshot
           \<lparr>success = True, pending = False, cancelled = False,
            payload = Obj [(''a'', Num 1)], result = v, meta = m\<rparr>)), [], [])"
  by code_simp

end
